theory Spec2Isabelle
  imports Main "HOL-Library.Word" "HOL-Library.Multiset"
begin

section \<open>rwsort: records, nodes and the comparator (rwsort.c, lines 146-368)\<close>

text \<open>
  The ways the program can stop other than by returning. \<open>Exit_*\<close> are the calls of
  \<^verbatim>\<open>exit\<close>/\<^verbatim>\<open>appExit(EXIT_FAILURE)\<close>; \<open>Assert_KeyIndex\<close> is the \<^verbatim>\<open>assert\<close> of
  \<^verbatim>\<open>rwrecCompare\<close>; \<open>Undef_*\<close> are the places where the C code would read or write
  memory it was never given (undefined behaviour), made explicit; \<open>Out_Of_Fuel\<close> is
  the bound on the number of merge passes of the model.
\<close>

datatype error =
    Exit_PluginCompare
  | Assert_KeyIndex
  | Exit_Alloc
  | Exit_TempCreate
  | Exit_TempOpen
  | Exit_TempWrite
  | Exit_Output
  | Exit_NextInput
  | Abort_BadCase
  | Undef_Lowest
  | Undef_Rv
  | Undef_Slot
  | Undef_BufferOverrun
  | Undef_DivZero
  | Out_Of_Fuel








datatype skplugin_err = SKPLUGIN_OK | SKPLUGIN_ERR nat













section \<open>The run buffer of sortRandom (rwsort.c, lines 886-1076)\<close>

text \<open>
  What the sorter is given from outside. \<open>cmp\<close> is the value \<^verbatim>\<open>rwrecCompare\<close> returns
  on two nodes (the sorter hands \<^verbatim>\<open>&rwrecCompare\<close> to \<^verbatim>\<open>skQSort\<close> and, through
  \<^verbatim>\<open>compHeapNodes\<close>, to the heap). \<open>wstat\<close> is the status \<^verbatim>\<open>skStreamWriteRecord\<close>
  reports for a record. \<open>zero_node\<close> is the node whose bytes are all zero, which
  \<^verbatim>\<open>memset(recs, 0, sizeof(recs))\<close> fills the scratch array of \<^verbatim>\<open>sortPresorted\<close> with. \<open>MAX_MERGE_FILES\<close>, \<open>SORT_NUM_CHUNKS\<close> and
  \<open>MIN_IN_CORE_RECORDS\<close> are the constants of \<^verbatim>\<open>rwsort.h\<close>, which is not among the
  sources; \<open>sort_buffer_size\<close> and \<open>node_size\<close> are the globals of that name. The
  remaining fields say which calls of the C library and of libsilk fail: the \<open>k\<close>-th
  call of \<^verbatim>\<open>calloc\<close>/\<^verbatim>\<open>realloc\<close> succeeds iff \<open>alloc_ok k\<close>; the \<open>k\<close>-th call of
  \<^verbatim>\<open>skTempFileOpen\<close> is answered by \<open>open_reply k\<close>; creating, and writing to, the temp
  file of index \<open>i\<close> fails iff \<open>tmp_create_fails i\<close>, \<open>tmp_write_fails i\<close>.
\<close>

datatype wstatus = W_OK | W_NONFATAL | W_FATAL

datatype open_reply = OPEN_OK | OPEN_EMFILE | OPEN_ENOMEM | OPEN_EOTHER

record 'n env =
  cmp :: "'n \<Rightarrow> 'n \<Rightarrow> int"
  wstat :: "'n \<Rightarrow> wstatus"
  zero_node :: "'n"
  MAX_MERGE_FILES :: int
  SORT_NUM_CHUNKS :: "32 word"
  MIN_IN_CORE_RECORDS :: "32 word"
  sort_buffer_size :: "64 word"
  node_size :: "32 word"
  alloc_ok :: "nat \<Rightarrow> bool"
  open_reply :: "nat \<Rightarrow> open_reply"
  tmp_create_fails :: "int \<Rightarrow> bool"
  tmp_write_fails :: "int \<Rightarrow> bool"

text \<open>
  What the sorter changes outside its own variables: the temp files of \<^verbatim>\<open>tmpctx\<close> by
  index and the index the next one gets, the records in the output stream
  \<^verbatim>\<open>out_rwios\<close>, and the number of allocation and open calls made so far.
\<close>

record 'n world =
  files :: "int \<rightharpoonup> 'n list"
  next_index :: int
  out_rwios :: "'n list"
  alloc_calls :: nat
  open_calls :: nat

definition initial_world :: "'n world" where
  "initial_world = \<lparr>files = Map.empty, next_index = 0, out_rwios = [], alloc_calls = 0, open_calls = 0\<rparr>"

text \<open>
  The result of one \<^verbatim>\<open>appNextInput\<close> call that does not return 1: a stream (return 0),
  given as the nodes \<^verbatim>\<open>fillRecordAndKey\<close> delivers from it before it first returns 0, an
  error (-1), or no memory or file handle left (-2). The list of these is the script of
  the calls; when it is used up, \<^verbatim>\<open>appNextInput\<close> returns 1.
\<close>

datatype 'n next_input = Input "'n list" | Input_Error | Input_NoResources

text \<open>
  Modelled from the spec: \<^verbatim>\<open>skStreamWriteRecord\<close> (libsilk) is missing. The spec gives
  the writer the results ok, retryable error and fatal error, and says that after a
  non-fatal error the source continues and the record does not count as emitted.
\<close>

definition skStreamWriteRecord :: "'n env \<Rightarrow> 'n world \<Rightarrow> 'n \<Rightarrow> wstatus \<times> 'n world" where
  "skStreamWriteRecord E w n =
     (case wstat E n of
        W_OK \<Rightarrow> (W_OK, w\<lparr>out_rwios := out_rwios w @ [n]\<rparr>)
      | st \<Rightarrow> (st, w))"

text \<open>
  The five lines that follow every \<^verbatim>\<open>skStreamWriteRecord\<close> call of the source: a
  non-zero status is printed, and only a fatal one exits.
\<close>

definition write_output :: "'n env \<Rightarrow> 'n world \<Rightarrow> 'n \<Rightarrow> error + 'n world" where
  "write_output E w n =
     (case skStreamWriteRecord E w n of
        (rv, w') \<Rightarrow> if rv \<noteq> W_OK \<and> rv = W_FATAL then Inl Exit_Output else Inr w')"

text \<open>
  Modelled from the spec: the temp-file functions of libsilk are missing. The spec's
  contract: \<open>create\<close> gives a writer and an index, indices increase from zero, files hold
  raw nodes back to back, \<open>open\<close> gives a reader, \<open>remove\<close> deletes.
\<close>

definition skTempFileCreate :: "'n env \<Rightarrow> 'n world \<Rightarrow> (int \<times> 'n world) option" where
  "skTempFileCreate E w =
     (if tmp_create_fails E (next_index w) then None
      else Some (next_index w,
                 w\<lparr>files := (files w)(next_index w \<mapsto> []), next_index := next_index w + 1\<rparr>))"

definition fwrite_temp :: "'n env \<Rightarrow> 'n world \<Rightarrow> int \<Rightarrow> 'n \<Rightarrow> 'n world option" where
  "fwrite_temp E w idx n =
     (if tmp_write_fails E idx then None
      else Some (w\<lparr>files := (files w)(idx \<mapsto> (case files w idx of None \<Rightarrow> [] | Some c \<Rightarrow> c) @ [n])\<rparr>))"

definition skTempFileWriteBuffer :: "'n env \<Rightarrow> 'n world \<Rightarrow> 'n list \<Rightarrow> (int \<times> 'n world) option" where
  "skTempFileWriteBuffer E w buf =
     (if tmp_create_fails E (next_index w) \<or> tmp_write_fails E (next_index w) then None
      else Some (next_index w,
                 w\<lparr>files := (files w)(next_index w \<mapsto> buf), next_index := next_index w + 1\<rparr>))"

definition skTempFileOpen :: "'n env \<Rightarrow> 'n world \<Rightarrow> int \<Rightarrow> (open_reply + 'n list) \<times> 'n world" where
  "skTempFileOpen E w j =
     (let w' = w\<lparr>open_calls := open_calls w + 1\<rparr>
      in case open_reply E (open_calls w) of
           OPEN_OK \<Rightarrow> (case files w j of None \<Rightarrow> (Inl OPEN_EOTHER, w') | Some c \<Rightarrow> (Inr c, w'))
         | r \<Rightarrow> (Inl r, w'))"

definition skTempFileRemove :: "'n world \<Rightarrow> int \<Rightarrow> 'n world" where
  "skTempFileRemove w j = w\<lparr>files := (files w)(j := None)\<rparr>"

text \<open>
  Modelled from the spec: \<^verbatim>\<open>skQSort\<close> (libsilk) is missing; the spec says the buffer is
  sorted in place with the comparator. A quicksort around the first element.
\<close>

fun skQSort :: "('n \<Rightarrow> 'n \<Rightarrow> int) \<Rightarrow> 'n list \<Rightarrow> 'n list" where
  "skQSort c [] = []"
| "skQSort c (p # xs) =
     skQSort c (filter (\<lambda>x. c x p < 0) xs) @ p # skQSort c (filter (\<lambda>x. \<not> c x p < 0) xs)"

text \<open>
  The variables of \<^verbatim>\<open>sortRandom\<close>. \<open>record_buffer\<close> holds the \<open>record_count\<close> nodes
  stored so far; \<open>buffer_recs\<close> is the number of nodes the allocation has room for;
  \<open>sr_temp_file_idx\<close> is the function's \<open>temp_file_idx\<close>.
\<close>

record 'n sortbuf =
  record_buffer :: "'n list"
  record_count :: "32 word"
  buffer_recs :: "32 word"
  buffer_max_recs :: "32 word"
  buffer_chunk_recs :: "32 word"
  sr_temp_file_idx :: int

text \<open>
  Lines 918-939: the initial allocation. The chunk is \<open>buffer_max_recs / num_chunks\<close>; when
  \<^verbatim>\<open>calloc\<close> fails and the chunk is not yet below \<open>MIN_IN_CORE_RECORDS\<close>, \<open>num_chunks\<close>
  is incremented and the allocation tried again. \<open>num_chunks\<close> is a \<^verbatim>\<open>uint32_t\<close>: after
  \<open>2 ^ 32 - 1\<close> it is 0, and the division traps. The result is \<open>num_chunks\<close>, the chunk
  and the number of allocation calls made.
\<close>

function initial_chunk :: "'n env \<Rightarrow> 32 word \<Rightarrow> nat \<Rightarrow> 32 word \<Rightarrow> error + (32 word \<times> 32 word \<times> nat)" where
  "initial_chunk E max_recs calls num_chunks =
     (if num_chunks = 0 then Inl Undef_DivZero
      else let chunk_recs = max_recs div num_chunks
           in if alloc_ok E calls then Inr (num_chunks, chunk_recs, Suc calls)
              else if chunk_recs < MIN_IN_CORE_RECORDS E then Inl Exit_Alloc
              else initial_chunk E max_recs (Suc calls) (num_chunks + 1))"
  by pat_completeness auto
termination
proof (relation "measure (\<lambda>(E, m, c, n). if n = 0 then 0 else 2 ^ 32 - unat n)")
  show "wf (measure (\<lambda>(E :: 'n env, m :: 32 word, c :: nat, n :: 32 word).
              if n = 0 then 0 else 2 ^ 32 - unat n))"
    by simp
next
  fix E :: "'n env" and max_recs :: "32 word" and calls :: nat and num_chunks x :: "32 word"
  assume nz: "num_chunks \<noteq> 0"
  have lt: "unat num_chunks < 2 ^ 32"
    using unsigned_less [of num_chunks, where 'a = nat] by simp
  show "((E, max_recs, Suc calls, num_chunks + 1), (E, max_recs, calls, num_chunks))
          \<in> measure (\<lambda>(E, m, c, n). if n = 0 then 0 else 2 ^ 32 - unat n)"
  proof (cases "num_chunks + 1 = 0")
    case True
    then show ?thesis using lt nz by simp
  next
    case False
    then have "unat (num_chunks + 1) = unat num_chunks + 1"
      using unatSuc [of num_chunks] by (simp add: add.commute)
    then show ?thesis using lt nz False by simp
  qed
qed

declare initial_chunk.simps [simp del]

text \<open>
  Lines 979-1005, run when the buffer is full and below its maximum: a chunk is added,
  and when a further chunk would pass the maximum the size is set to the maximum;
  \<^verbatim>\<open>realloc\<close> to that size either succeeds, or fails and pins both the size and the
  maximum to the number of records held.
\<close>

definition grow_target :: "'n sortbuf \<Rightarrow> 32 word" where
  "grow_target s =
     (let r = buffer_recs s + buffer_chunk_recs s
      in if r + buffer_chunk_recs s > buffer_max_recs s then buffer_max_recs s else r)"

definition grow_buffer :: "'n env \<Rightarrow> 'n sortbuf \<times> 'n world \<Rightarrow> 'n sortbuf \<times> 'n world" where
  "grow_buffer E sw =
     (case sw of (s, w) \<Rightarrow>
        if alloc_ok E (alloc_calls w)
        then (s\<lparr>buffer_recs := grow_target s\<rparr>, w\<lparr>alloc_calls := alloc_calls w + 1\<rparr>)
        else (s\<lparr>buffer_recs := record_count s, buffer_max_recs := record_count s\<rparr>,
              w\<lparr>alloc_calls := alloc_calls w + 1\<rparr>))"

text \<open>Lines 1009-1026: sort the full buffer, write it to a new temp file, empty it.\<close>

definition spill_buffer :: "'n env \<Rightarrow> 'n sortbuf \<times> 'n world \<Rightarrow> error + 'n sortbuf \<times> 'n world" where
  "spill_buffer E sw =
     (case sw of (s, w) \<Rightarrow>
        (case skTempFileWriteBuffer E w (skQSort (cmp E) (record_buffer s)) of
           None \<Rightarrow> Inl Exit_TempWrite
         | Some (idx, w') \<Rightarrow> Inr (s\<lparr>sr_temp_file_idx := idx, record_count := 0, record_buffer := []\<rparr>, w')))"

text \<open>
  Lines 958-1027 for one record that \<^verbatim>\<open>fillRecordAndKey\<close> delivered: it is stored at
  \<^verbatim>\<open>cur_node\<close>, which lies inside the allocation only while \<open>record_count < buffer_recs\<close>.
\<close>

definition store_record :: "'n env \<Rightarrow> 'n sortbuf \<times> 'n world \<Rightarrow> 'n \<Rightarrow> error + 'n sortbuf \<times> 'n world" where
  "store_record E sw n =
     (case sw of (s, w) \<Rightarrow>
        if \<not> record_count s < buffer_recs s then Inl Undef_BufferOverrun
        else
          let s1 = s\<lparr>record_buffer := record_buffer s @ [n], record_count := record_count s + 1\<rparr>
          in if record_count s1 = buffer_recs s1
             then
               let sw2 = (if buffer_recs s1 < buffer_max_recs s1 then grow_buffer E (s1, w) else (s1, w))
               in if record_count (fst sw2) = buffer_max_recs (fst sw2) then spill_buffer E sw2
                  else Inr sw2
             else Inr (s1, w))"

fun fill_buffer :: "'n env \<Rightarrow> 'n sortbuf \<times> 'n world \<Rightarrow> 'n list \<Rightarrow> error + 'n sortbuf \<times> 'n world" where
  "fill_buffer E sw [] = Inr sw"
| "fill_buffer E sw (n # ns) =
     (case store_record E sw n of Inl e \<Rightarrow> Inl e | Inr sw' \<Rightarrow> fill_buffer E sw' ns)"

text \<open>
  The \<^verbatim>\<open>while (input_rwios != NULL)\<close> loop, over the script of the \<^verbatim>\<open>appNextInput\<close>
  calls made when a stream is used up: a negative return exits.
\<close>

fun read_inputs :: "'n env \<Rightarrow> 'n sortbuf \<times> 'n world \<Rightarrow> 'n next_input list \<Rightarrow> error + 'n sortbuf \<times> 'n world" where
  "read_inputs E sw [] = Inr sw"
| "read_inputs E sw (Input s # rest) =
     (case fill_buffer E sw s of Inl e \<Rightarrow> Inl e | Inr sw' \<Rightarrow> read_inputs E sw' rest)"
| "read_inputs E sw (_ # rest) = Inl Exit_NextInput"

fun write_all_output :: "'n env \<Rightarrow> 'n world \<Rightarrow> 'n list \<Rightarrow> error + 'n world" where
  "write_all_output E w [] = Inr w"
| "write_all_output E w (n # ns) =
     (case write_output E w n of Inl e \<Rightarrow> Inl e | Inr w' \<Rightarrow> write_all_output E w' ns)"

text \<open>
  Lines 1030-1076: the last batch is sorted; it goes to a temp file when one was written
  before, and to the output otherwise. The result is \<open>temp_file_idx\<close>.
\<close>

definition finish_random :: "'n env \<Rightarrow> 'n sortbuf \<times> 'n world \<Rightarrow> error + int \<times> 'n world" where
  "finish_random E sw =
     (case sw of (s, w) \<Rightarrow>
        if record_count s > 0 then
          let buf = skQSort (cmp E) (record_buffer s)
          in if sr_temp_file_idx s \<ge> 0
             then (case skTempFileWriteBuffer E w buf of
                     None \<Rightarrow> Inl Exit_TempWrite
                   | Some (idx, w') \<Rightarrow> Inr (idx, w'))
             else (case write_all_output E w buf of
                     Inl e \<Rightarrow> Inl e
                   | Inr w' \<Rightarrow> Inr (sr_temp_file_idx s, w'))
        else Inr (sr_temp_file_idx s, w))"

definition sortRandom :: "'n env \<Rightarrow> 'n next_input list \<Rightarrow> 'n world \<Rightarrow> error + int \<times> 'n world" where
  "sortRandom E ins w =
     (if node_size E = 0 then Inl Undef_DivZero
      else
        let max_recs = (ucast (sort_buffer_size E div ucast (node_size E)) :: 32 word);
            num_chunks = (if SORT_NUM_CHUNKS E \<le> 0 then 1 else SORT_NUM_CHUNKS E)
        in case initial_chunk E max_recs (alloc_calls w) num_chunks of
             Inl e \<Rightarrow> Inl e
           | Inr (num_chunks', chunk_recs, calls) \<Rightarrow>
               let s = \<lparr>record_buffer = [], record_count = 0, buffer_recs = chunk_recs,
                        buffer_max_recs = max_recs, buffer_chunk_recs = chunk_recs,
                        sr_temp_file_idx = - 1\<rparr>;
                   w1 = w\<lparr>alloc_calls := calls\<rparr>
               in (case ins of
                     [] \<Rightarrow> Inr (- 1, w1)
                   | Input_Error # rest \<Rightarrow> Inl Exit_NextInput
                   | Input_NoResources # rest \<Rightarrow> Inl Exit_NextInput
                   | Input strm # rest \<Rightarrow>
                       (case read_inputs E (s, w1) ins of
                          Inl e \<Rightarrow> Inl e
                        | Inr sw \<Rightarrow> finish_random E sw)))"


section \<open>The merge of mergeFiles and sortPresorted (rwsort.c, lines 380-868)\<close>

text \<open>
  The arrays of a merge pass: \<open>fps\<close> (\<^verbatim>\<open>rwios\<close> in \<^verbatim>\<open>sortPresorted\<close>) holds for each slot
  what is left to read from the reader in it, \<open>recs\<close> the node last read from it, and
  \<open>heap\<close> the slot numbers the heap holds. \<open>slot\<close> reads an array where the pass has put
  something, and is \<open>None\<close> elsewhere.
\<close>

record 'n readers =
  fps :: "'n list list"
  recs :: "'n list"
  heap :: "nat list"

definition open_count :: "'n readers \<Rightarrow> nat" where
  "open_count p = length (fps p)"

definition slot :: "'a list \<Rightarrow> nat \<Rightarrow> 'a option" where
  "slot xs i = (if i < length xs then Some (xs ! i) else None)"

text \<open>Lines 380-390. The heap only calls it on the slot numbers it holds.\<close>

definition compHeapNodes :: "('n \<Rightarrow> 'n \<Rightarrow> int) \<Rightarrow> 'n list \<Rightarrow> nat \<Rightarrow> nat \<Rightarrow> int" where
  "compHeapNodes c v_recs b a = c (v_recs ! a) (v_recs ! b)"

text \<open>
  Modelled from the spec: the heap library \<^verbatim>\<open>skheap\<close> (libsilk) is missing. The spec's
  heap protocol: a min-heap keyed by the comparator, whose top is the minimum. Here the
  heap is the list of its entries, and its top is the entry that no other entry beats
  under the comparison callback (a positive \<open>cf y t\<close> puts \<open>y\<close> above \<open>t\<close>), the earliest
  such one. \<open>skHeapExtractTop\<close> removes the top and \<open>skHeapReplaceTop\<close> puts a new entry
  in its place; for both the top is the entry \<open>skHeapPeekTop\<close> has just returned.
\<close>

fun heap_top_from :: "(nat \<Rightarrow> nat \<Rightarrow> int) \<Rightarrow> nat \<Rightarrow> nat list \<Rightarrow> nat" where
  "heap_top_from cf t [] = t"
| "heap_top_from cf t (y # ys) = heap_top_from cf (if cf y t > 0 then y else t) ys"

definition skHeapPeekTop :: "(nat \<Rightarrow> nat \<Rightarrow> int) \<Rightarrow> nat list \<Rightarrow> nat option" where
  "skHeapPeekTop cf h = (case h of [] \<Rightarrow> None | x # xs \<Rightarrow> Some (heap_top_from cf x xs))"

definition skHeapInsert :: "nat list \<Rightarrow> nat \<Rightarrow> nat list" where
  "skHeapInsert h e = h @ [e]"

definition skHeapExtractTop :: "nat \<Rightarrow> nat list \<Rightarrow> nat list" where
  "skHeapExtractTop root h = remove1 root h"

definition skHeapReplaceTop :: "nat \<Rightarrow> nat list \<Rightarrow> nat \<Rightarrow> nat list" where
  "skHeapReplaceTop root h new = remove1 root h @ [new]"

text \<open>
  Writing the lowest record: to the intermediate temp file when \<^verbatim>\<open>fp_intermediate\<close> is
  not \<^verbatim>\<open>NULL\<close> (it is \<open>Some\<close> of the file's index), to the output otherwise.
\<close>

definition write_lowest :: "'n env \<Rightarrow> int option \<Rightarrow> 'n world \<Rightarrow> 'n \<Rightarrow> error + 'n world" where
  "write_lowest E fp_intermediate w n =
     (case fp_intermediate of
        Some idx \<Rightarrow> (case fwrite_temp E w idx n of None \<Rightarrow> Inl Exit_TempWrite | Some w' \<Rightarrow> Inr w')
      | None \<Rightarrow> write_output E w n)"

text \<open>
  One turn of the loop at lines 562-601 (and 778-818): the record of the top slot is
  written, and the next record of that slot's reader takes its place, or the slot leaves
  the heap when the reader has no more.
\<close>

definition merge_step :: "'n env \<Rightarrow> int option \<Rightarrow> 'n world \<times> 'n readers \<Rightarrow> error + 'n world \<times> 'n readers" where
  "merge_step E fp_intermediate wp =
     (case wp of (w, p) \<Rightarrow>
        (case skHeapPeekTop (compHeapNodes (cmp E) (recs p)) (heap p) of
           None \<Rightarrow> Inl Undef_Lowest
         | Some lowest \<Rightarrow>
             (case slot (recs p) lowest of
                None \<Rightarrow> Inl Undef_Slot
              | Some n \<Rightarrow>
                  (case write_lowest E fp_intermediate w n of
                     Inl e \<Rightarrow> Inl e
                   | Inr w' \<Rightarrow>
                       (case slot (fps p) lowest of
                          None \<Rightarrow> Inl Undef_Slot
                        | Some [] \<Rightarrow> Inr (w', p\<lparr>heap := skHeapExtractTop lowest (heap p)\<rparr>)
                        | Some (x # rest) \<Rightarrow>
                            Inr (w', p\<lparr>fps := (fps p)[lowest := rest],
                                       recs := (recs p)[lowest := x],
                                       heap := skHeapReplaceTop lowest (heap p) lowest\<rparr>))))))"

definition merge_size :: "'n readers \<Rightarrow> nat" where
  "merge_size p = sum_list (map length (fps p)) + length (heap p)"

lemma heap_top_from_mem: "heap_top_from cf t ys \<in> set (t # ys)"
  by (induction ys arbitrary: t) auto

lemma skHeapPeekTop_mem: "skHeapPeekTop cf h = Some t \<Longrightarrow> t \<in> set h"
  using heap_top_from_mem [of cf] by (auto simp: skHeapPeekTop_def split: list.splits)

lemma sum_list_length_update:
  assumes "i < length xss" and "xss ! i = x # rest"
  shows "sum_list (map length (xss[i := rest])) < sum_list (map length xss)"
proof -
  have "sum_list (map length (xss[i := rest])) = sum_list ((map length xss)[i := length rest])"
    by (simp add: map_update)
  also have "\<dots> = sum_list (map length xss) + length rest - map length xss ! i"
    using assms(1) by (simp add: sum_list_update)
  also have "\<dots> < sum_list (map length xss)"
  proof -
    have "map length xss ! i \<le> sum_list (map length xss)"
      using assms(1) by (simp add: member_le_sum_list)
    then show ?thesis using assms by simp
  qed
  finally show ?thesis .
qed

lemma merge_step_size:
  assumes "merge_step E fpi (w, p) = Inr (w', p')"
  shows "merge_size p' < merge_size p"
proof -
  from assms obtain lowest where top: "skHeapPeekTop (compHeapNodes (cmp E) (recs p)) (heap p) = Some lowest"
    by (auto simp: merge_step_def split: option.splits)
  then have mem: "lowest \<in> set (heap p)" by (rule skHeapPeekTop_mem)
  from assms top obtain rs where rs: "slot (fps p) lowest = Some rs"
    by (auto simp: merge_step_def split: option.splits sum.splits)
  then have lt: "lowest < length (fps p)" and nth: "fps p ! lowest = rs"
    by (auto simp: slot_def split: if_splits)
  show ?thesis
  proof (cases rs)
    case Nil
    with assms top rs have "p' = p\<lparr>heap := remove1 lowest (heap p)\<rparr>"
      by (auto simp: merge_step_def skHeapExtractTop_def split: option.splits sum.splits)
    then show ?thesis using mem by (simp add: merge_size_def length_remove1)
        (metis length_pos_if_in_set Suc_pred less_Suc_eq)
  next
    case (Cons x rest)
    with assms top rs have p': "p' = p\<lparr>fps := (fps p)[lowest := rest], recs := (recs p)[lowest := x],
                                 heap := remove1 lowest (heap p) @ [lowest]\<rparr>"
      by (auto simp: merge_step_def skHeapReplaceTop_def split: option.splits sum.splits)
    have "length (remove1 lowest (heap p) @ [lowest]) = length (heap p)"
      using mem by (simp add: length_remove1) (metis length_pos_if_in_set Suc_pred)
    moreover have "sum_list (map length ((fps p)[lowest := rest])) < sum_list (map length (fps p))"
      using lt nth Cons by (intro sum_list_length_update) auto
    ultimately show ?thesis by (simp add: p' merge_size_def)
  qed
qed

function merge_loop :: "'n env \<Rightarrow> int option \<Rightarrow> 'n world \<times> 'n readers \<Rightarrow> error + 'n world \<times> 'n readers" where
  "merge_loop E fp_intermediate wp =
     (if length (heap (snd wp)) > 1
      then (case merge_step E fp_intermediate wp of
              Inl e \<Rightarrow> Inl e
            | Inr wp' \<Rightarrow> merge_loop E fp_intermediate wp')
      else Inr wp)"
  by pat_completeness auto
termination
proof (relation "measure (\<lambda>(E, fpi, wp). merge_size (snd wp))")
  show "wf (measure (\<lambda>(E :: 'n env, fpi :: int option, wp :: 'n world \<times> 'n readers). merge_size (snd wp)))"
    by simp
next
  fix E :: "'n env" and fp_intermediate :: "int option" and wp wp' :: "'n world \<times> 'n readers"
  assume "merge_step E fp_intermediate wp = Inr wp'"
  then have "merge_size (snd wp') < merge_size (snd wp)"
    using merge_step_size [of E fp_intermediate "fst wp" "snd wp" "fst wp'" "snd wp'"] by simp
  then show "((E, fp_intermediate, wp'), (E, fp_intermediate, wp))
               \<in> measure (\<lambda>(E, fpi, wp). merge_size (snd wp))"
    by simp
qed

declare merge_loop.simps [simp del]


text \<open>
  The \<^verbatim>\<open>do ... while (fread(...))\<close> loops at lines 608-627 (and 822-842) for the slot
  \<open>lowest\<close>: the record in \<open>recs[lowest]\<close> is written, then every record still to be
  read from the slot's reader.
\<close>

fun write_all :: "'n env \<Rightarrow> int option \<Rightarrow> 'n world \<Rightarrow> 'n list \<Rightarrow> error + 'n world" where
  "write_all E fp_intermediate w [] = Inr w"
| "write_all E fp_intermediate w (n # ns) =
     (case write_lowest E fp_intermediate w n of
        Inl e \<Rightarrow> Inl e
      | Inr w' \<Rightarrow> write_all E fp_intermediate w' ns)"

definition drain_slot :: "'n env \<Rightarrow> int option \<Rightarrow> 'n world \<times> 'n readers \<Rightarrow> nat \<Rightarrow> error + 'n world \<times> 'n readers" where
  "drain_slot E fp_intermediate wp lowest =
     (case wp of (w, p) \<Rightarrow>
        (case slot (recs p) lowest of
           None \<Rightarrow> Inl Undef_Slot
         | Some n \<Rightarrow>
             (case slot (fps p) lowest of
                None \<Rightarrow> Inl Undef_Slot
              | Some rest \<Rightarrow>
                  (case write_all E fp_intermediate w (n # rest) of
                     Inl e \<Rightarrow> Inl e
                   | Inr w' \<Rightarrow>
                       Inr (w', p\<lparr>fps := (fps p)[lowest := []],
                                  recs := (recs p)[lowest := last (n # rest)],
                                  heap := skHeapExtractTop lowest (heap p)\<rparr>)))))"

text \<open>
  Lines 603-627 of \<^verbatim>\<open>mergeFiles\<close>: \<^verbatim>\<open>skHeapExtractTop(heap, &lowest)\<close> is called
  without looking at its result, and \<open>recs[lowest]\<close> is written. On an empty heap the
  call assigns nothing to \<open>lowest\<close>, which then holds whatever it held before.
\<close>

definition drain_remaining :: "'n env \<Rightarrow> int option \<Rightarrow> 'n world \<times> 'n readers \<Rightarrow> error + 'n world \<times> 'n readers" where
  "drain_remaining E fp_intermediate wp =
     (case skHeapPeekTop (compHeapNodes (cmp E) (recs (snd wp))) (heap (snd wp)) of
        None \<Rightarrow> Inl Undef_Lowest
      | Some lowest \<Rightarrow> drain_slot E fp_intermediate wp lowest)"

text \<open>
  Lines 820-845 of \<^verbatim>\<open>sortPresorted\<close>: the same, inside
  \<^verbatim>\<open>if (SKHEAP_OK == skHeapExtractTop(heap, &lowest))\<close>.
\<close>

definition drain_presorted :: "'n env \<Rightarrow> int option \<Rightarrow> 'n world \<times> 'n readers \<Rightarrow> error + 'n world \<times> 'n readers" where
  "drain_presorted E fp_intermediate wp =
     (case skHeapPeekTop (compHeapNodes (cmp E) (recs (snd wp))) (heap (snd wp)) of
        None \<Rightarrow> Inr wp
      | Some lowest \<Rightarrow> drain_slot E fp_intermediate wp lowest)"

text \<open>
  Lines 503-541 of \<^verbatim>\<open>mergeFiles\<close>, over the indices \<open>j\<close> still to open. A failed open
  ends the loop with the upper bound \<open>j - 1\<close> when \<open>open_count > 0\<close> and the error is
  \<^verbatim>\<open>EMFILE\<close> or \<^verbatim>\<open>ENOMEM\<close>, and exits otherwise. An opened file that is empty is
  skipped by \<^verbatim>\<open>continue\<close>, which leaves \<open>open_count\<close> as it is (the next open assigns
  \<open>fps[open_count]\<close> again). The result is the upper bound \<open>tmp_idx_b\<close>.
\<close>

fun open_temps :: "'n env \<Rightarrow> 'n world \<times> 'n readers \<Rightarrow> int \<Rightarrow> int list \<Rightarrow> error + int \<times> 'n world \<times> 'n readers" where
  "open_temps E wp tmp_idx_b [] = Inr (tmp_idx_b, wp)"
| "open_temps E wp tmp_idx_b (j # js) =
     (case skTempFileOpen E (fst wp) j of
        (Inl errno, w') \<Rightarrow>
          if open_count (snd wp) > 0 \<and> (errno = OPEN_EMFILE \<or> errno = OPEN_ENOMEM)
          then Inr (j - 1, w', snd wp)
          else Inl Exit_TempOpen
      | (Inr [], w') \<Rightarrow> open_temps E (w', snd wp) tmp_idx_b js
      | (Inr (x # rest), w') \<Rightarrow>
          open_temps E (w', (snd wp)\<lparr>fps := fps (snd wp) @ [rest],
                                     recs := recs (snd wp) @ [x],
                                     heap := skHeapInsert (heap (snd wp)) (open_count (snd wp))\<rparr>)
            tmp_idx_b js)"

definition remove_temps :: "'n world \<Rightarrow> int list \<Rightarrow> 'n world" where
  "remove_temps w js = fold (\<lambda>j w. skTempFileRemove w j) js w"

text \<open>
  One turn of the \<^verbatim>\<open>do ... while (!no_more_temps)\<close> loop of \<^verbatim>\<open>mergeFiles\<close> (lines
  479-657), from the values of \<open>temp_file_idx\<close> and \<open>tmp_idx_a\<close> to \<open>no_more_temps\<close>
  and their new values.
\<close>

definition merge_pass :: "'n env \<Rightarrow> int \<times> int \<times> 'n world \<Rightarrow> error + bool \<times> int \<times> int \<times> 'n world" where
  "merge_pass E v =
     (case v of (temp_file_idx, tmp_idx_a, w) \<Rightarrow>
        let tmp_idx_b = (if temp_file_idx - tmp_idx_a < MAX_MERGE_FILES E - 1 then temp_file_idx
                         else tmp_idx_a + MAX_MERGE_FILES E - 1)
        in (case skTempFileCreate E w of
              None \<Rightarrow> Inl Exit_TempCreate
            | Some (tmp_idx_intermediate, w1) \<Rightarrow>
                (case open_temps E (w1, \<lparr>fps = [], recs = [], heap = []\<rparr>) tmp_idx_b [tmp_idx_a..tmp_idx_b] of
                   Inl e \<Rightarrow> Inl e
                 | Inr (tmp_idx_b', wp) \<Rightarrow>
                     let no_more_temps = (tmp_idx_b' = temp_file_idx);
                         fp_intermediate = (if no_more_temps then None else Some tmp_idx_intermediate);
                         temp_file_idx' = (if no_more_temps then temp_file_idx else tmp_idx_intermediate)
                     in (case merge_loop E fp_intermediate wp of
                           Inl e \<Rightarrow> Inl e
                         | Inr wp' \<Rightarrow>
                             (case drain_remaining E fp_intermediate wp' of
                                Inl e \<Rightarrow> Inl e
                              | Inr (w', p') \<Rightarrow>
                                  Inr (no_more_temps, temp_file_idx', tmp_idx_b' + 1,
                                       remove_temps w' [tmp_idx_a..tmp_idx_b']))))))"

text \<open>
  The loop itself. A pass that merges a single file into a new one leaves as many files
  as before, so the number of passes has no bound in the code; the model counts them down
  from \<open>fuel\<close>.
\<close>

fun mergeFiles_loop :: "nat \<Rightarrow> 'n env \<Rightarrow> int \<times> int \<times> 'n world \<Rightarrow> error + 'n world" where
  "mergeFiles_loop 0 E v = Inl Out_Of_Fuel"
| "mergeFiles_loop (Suc fuel) E v =
     (case merge_pass E v of
        Inl e \<Rightarrow> Inl e
      | Inr (no_more_temps, temp_file_idx, tmp_idx_a, w) \<Rightarrow>
          if no_more_temps then Inr w else mergeFiles_loop fuel E (temp_file_idx, tmp_idx_a, w))"

definition mergeFiles :: "nat \<Rightarrow> 'n env \<Rightarrow> int \<Rightarrow> 'n world \<Rightarrow> error + 'n world" where
  "mergeFiles fuel E temp_file_idx w = mergeFiles_loop fuel E (temp_file_idx, 0, w)"

text \<open>
  Lines 721-726 of \<^verbatim>\<open>sortPresorted\<close>: up to \<open>k\<close> more calls of \<^verbatim>\<open>appNextInput\<close>, ended
  by the first that does not return 0. The result is the last return value \<open>rv\<close>, the
  streams opened and the rest of the script.
\<close>

fun open_inputs :: "nat \<Rightarrow> 'n next_input list \<Rightarrow> 'n list list \<Rightarrow> int \<times> 'n list list \<times> 'n next_input list" where
  "open_inputs 0 ins rwios = (0, rwios, ins)"
| "open_inputs (Suc k) [] rwios = (1, rwios, [])"
| "open_inputs (Suc k) (Input strm # ins) rwios = open_inputs k ins (rwios @ [strm])"
| "open_inputs (Suc k) (Input_Error # ins) rwios = (- 1, rwios, ins)"
| "open_inputs (Suc k) (Input_NoResources # ins) rwios = (- 2, rwios, ins)"

text \<open>
  Lines 766-771: the first record of each opened stream is read into its slot of
  \<open>recs\<close>, and the slot enters the heap; the slot of a stream with no record keeps what
  it held.
\<close>

fun seed_inputs :: "'n list list \<Rightarrow> 'n readers \<Rightarrow> 'n readers" where
  "seed_inputs [] p = p"
| "seed_inputs ([] # ss) p = seed_inputs ss (p\<lparr>fps := fps p @ [[]]\<rparr>)"
| "seed_inputs ((x # rest) # ss) p =
     seed_inputs ss (p\<lparr>fps := fps p @ [rest],
                      recs := (recs p)[open_count p := x],
                      heap := skHeapInsert (heap p) (open_count p)\<rparr>)"

text \<open>Lines 765-860: seeding, merging and draining, once the \<^verbatim>\<open>switch\<close> has let the pass go on.\<close>

definition presorted_merge :: "'n env \<Rightarrow> bool \<Rightarrow> int \<Rightarrow> 'n list list \<Rightarrow> 'n list \<Rightarrow> 'n next_input list \<Rightarrow> 'n world
    \<Rightarrow> error + bool \<times> int \<times> 'n list \<times> 'n next_input list \<times> 'n world" where
  "presorted_merge E no_more_inputs temp_file_idx rwios recs_arr ins w =
     (let unused = (no_more_inputs \<and> temp_file_idx = 0);
          fp_intermediate = (if unused then None else Some temp_file_idx);
          temp_file_idx' = (if unused then - 1 else temp_file_idx)
      in (case merge_loop E fp_intermediate (w, seed_inputs rwios \<lparr>fps = [], recs = recs_arr, heap = []\<rparr>) of
            Inl e \<Rightarrow> Inl e
          | Inr wp \<Rightarrow>
              (case drain_presorted E fp_intermediate wp of
                 Inl e \<Rightarrow> Inl e
               | Inr (w', p') \<Rightarrow> Inr (no_more_inputs, temp_file_idx', recs p', ins, w'))))"

text \<open>
  One turn of the \<^verbatim>\<open>do ... while (!no_more_inputs)\<close> loop (lines 709-861). With
  \<open>MAX_MERGE_FILES\<close> not positive the \<^verbatim>\<open>for\<close> loop would not assign \<open>rv\<close> before the
  \<^verbatim>\<open>switch\<close> reads it.
\<close>

definition presorted_pass :: "'n env \<Rightarrow> 'n list \<times> 'n next_input list \<times> 'n world
    \<Rightarrow> error + bool \<times> int \<times> 'n list \<times> 'n next_input list \<times> 'n world" where
  "presorted_pass E v =
     (case v of (recs_arr, ins, w) \<Rightarrow>
        (case skTempFileCreate E w of
           None \<Rightarrow> Inl Exit_TempCreate
         | Some (temp_file_idx, w1) \<Rightarrow>
             if MAX_MERGE_FILES E \<le> 0 then Inl Undef_Rv
             else
               (case open_inputs (nat (MAX_MERGE_FILES E)) ins [] of
                  (rv, rwios, ins') \<Rightarrow>
                    if rv = 1 then presorted_merge E True temp_file_idx rwios recs_arr ins' w1
                    else if rv = - 1 then Inl Exit_NextInput
                    else if rv = - 2 then presorted_merge E False temp_file_idx rwios recs_arr ins' w1
                    else if rv = 0 then
                      (if int (length rwios) = MAX_MERGE_FILES E
                       then presorted_merge E False temp_file_idx rwios recs_arr ins' w1
                       else Inl Abort_BadCase)
                    else Inl Abort_BadCase)))"

lemma open_inputs_shorter:
  "open_inputs k ins rwios = (rv, rwios', ins') \<Longrightarrow> rv \<noteq> 1 \<Longrightarrow> 0 < k \<Longrightarrow> length ins' < length ins"
proof (induction k ins rwios rule: open_inputs.induct)
  case (3 k strm ins rwios)
  then show ?case by (cases k) auto
qed auto

lemma presorted_pass_shorter:
  fixes E :: "'n env"
  assumes "presorted_pass E (recs_arr, ins, w) = Inr (False, tfi, recs_arr', ins', w')"
  shows "length ins' < length ins"
proof -
  from assms obtain tfi0 w1 where cr: "skTempFileCreate E w = Some (tfi0, w1)"
    by (auto simp: presorted_pass_def split: option.splits)
  from assms cr have pos: "0 < MAX_MERGE_FILES E"
    by (auto simp: presorted_pass_def split: if_splits)
  obtain rv rwios ins1 where oi: "open_inputs (nat (MAX_MERGE_FILES E)) ins [] = (rv, rwios, ins1)"
    by (cases "open_inputs (nat (MAX_MERGE_FILES E)) ins ([] :: 'n list list)") auto
  have pm: "rv \<noteq> 1 \<and> presorted_merge E False tfi0 rwios recs_arr ins1 w1
              = Inr (False, tfi, recs_arr', ins', w')"
    using assms cr pos oi
    by (simp add: presorted_pass_def split: if_splits)
       (simp add: presorted_merge_def Let_def split: sum.splits prod.splits)
  then have "ins' = ins1"
    by (auto simp: presorted_merge_def Let_def split: sum.splits)
  from pm have "rv \<noteq> 1" by simp
  with oi pos show ?thesis
    using open_inputs_shorter [of "nat (MAX_MERGE_FILES E)" ins "[]" rv rwios ins1] \<open>ins' = ins1\<close>
    by simp
qed

function sortPresorted_loop :: "'n env \<Rightarrow> 'n list \<times> 'n next_input list \<times> 'n world \<Rightarrow> error + int \<times> 'n world" where
  "sortPresorted_loop E v =
     (case presorted_pass E v of
        Inl e \<Rightarrow> Inl e
      | Inr (no_more_inputs, temp_file_idx, recs_arr, ins, w) \<Rightarrow>
          if no_more_inputs then Inr (temp_file_idx, w)
          else sortPresorted_loop E (recs_arr, ins, w))"
  by pat_completeness auto
termination
proof (relation "measure (\<lambda>(E, v). length (fst (snd v)))")
  show "wf (measure (\<lambda>(E :: 'n env, v :: 'n list \<times> 'n next_input list \<times> 'n world). length (fst (snd v))))"
    by simp
next
  fix E :: "'n env" and v :: "'n list \<times> 'n next_input list \<times> 'n world"
    and r and no_more_inputs :: bool and y and tfi :: int and ya and recs_arr :: "'n list" and yb
    and ins :: "'n next_input list" and w :: "'n world"
  assume "presorted_pass E v = Inr r" "(no_more_inputs, y) = r" "(tfi, ya) = y"
    "(recs_arr, yb) = ya" "(ins, w) = yb" "\<not> no_more_inputs"
  then have "presorted_pass E (fst v, fst (snd v), snd (snd v)) = Inr (False, tfi, recs_arr, ins, w)"
    by auto
  then have "length ins < length (fst (snd v))"
    by (rule presorted_pass_shorter)
  then show "((E, recs_arr, ins, w), (E, v)) \<in> measure (\<lambda>(E, v). length (fst (snd v)))"
    by simp
qed

declare sortPresorted_loop.simps [simp del]

definition sortPresorted :: "'n env \<Rightarrow> 'n next_input list \<Rightarrow> 'n world \<Rightarrow> error + int \<times> 'n world" where
  "sortPresorted E ins w =
     sortPresorted_loop E (replicate (nat (MAX_MERGE_FILES E)) (zero_node E), ins, w)"

text \<open>
  \<^verbatim>\<open>main\<close>, lines 1086-1093: one of the two sorts, then \<^verbatim>\<open>mergeFiles\<close> when the sort
  returned the index of a temp file.
\<close>

definition rwsort :: "nat \<Rightarrow> 'n env \<Rightarrow> bool \<Rightarrow> 'n next_input list \<Rightarrow> error + 'n world" where
  "rwsort fuel E presorted_input ins =
     (case (if presorted_input then sortPresorted E ins initial_world
            else sortRandom E ins initial_world) of
        Inl e \<Rightarrow> Inl e
      | Inr (temp_idx, w) \<Rightarrow> if temp_idx \<ge> 0 then mergeFiles fuel E temp_idx w else Inr w)"


section \<open>An example configuration\<close>

text \<open>
  The setting of the specification's end-to-end scenarios: nodes are integers compared by
  value, the buffer budget is 32 bytes and a node has 4, at most 3 files are merged at
  once; every allocation, open and write succeeds. \<open>grow_state\<close> is the state of
  \<^verbatim>\<open>sortRandom\<close> with a budget of 44 bytes after seven records.
\<close>

definition int_cmp :: "int \<Rightarrow> int \<Rightarrow> int" where
  "int_cmp a b = (if a < b then - 1 else if a > b then 1 else 0)"

definition example_env :: "int env" where
  "example_env = \<lparr>cmp = int_cmp, wstat = (\<lambda>n. W_OK), zero_node = 0, MAX_MERGE_FILES = 3,
     SORT_NUM_CHUNKS = 4, MIN_IN_CORE_RECORDS = 1000, sort_buffer_size = 32, node_size = 4,
     alloc_ok = (\<lambda>k. True), open_reply = (\<lambda>k. OPEN_OK),
     tmp_create_fails = (\<lambda>i. False), tmp_write_fails = (\<lambda>i. False)\<rparr>"


text \<open>Two temp files, both empty, as \<^verbatim>\<open>sortPresorted\<close> leaves them when every input is empty.\<close>

definition two_empty_temps :: "int world" where
  "two_empty_temps = initial_world\<lparr>files := [0 \<mapsto> [], 1 \<mapsto> []], next_index := 2\<rparr>"

text \<open>Three temp files as a merge finds them, the second one empty.\<close>

definition three_runs :: "int world" where
  "three_runs = initial_world\<lparr>files := [0 \<mapsto> [1, 4], 1 \<mapsto> [], 2 \<mapsto> [2, 3]], next_index := 3\<rparr>"

section \<open>The comparator under the reverse flag\<close>





section \<open>The initial allocation and the growth of the run buffer\<close>

lemma initial_chunk_exit_only_if:
  "initial_chunk E m c n = Inl Exit_Alloc \<Longrightarrow>
     \<exists>k. (\<forall>j\<le>k. n + of_nat j \<noteq> 0 \<and> \<not> alloc_ok E (c + j))
        \<and> (\<forall>j<k. \<not> m div (n + of_nat j) < MIN_IN_CORE_RECORDS E)
        \<and> m div (n + of_nat k) < MIN_IN_CORE_RECORDS E"
proof (induction E m c n rule: initial_chunk.induct)
  case (1 E m c n)
  from "1.prems" have nz: "n \<noteq> 0" and fail: "\<not> alloc_ok E c"
    by (auto simp: initial_chunk.simps [of E m c n] Let_def split: if_splits)
  show ?case
  proof (cases "m div n < MIN_IN_CORE_RECORDS E")
    case True
    with nz fail show ?thesis by (intro exI [of _ 0]) simp
  next
    case False
    with "1.prems" nz fail have "initial_chunk E m (Suc c) (n + 1) = Inl Exit_Alloc"
      by (simp add: initial_chunk.simps [of E m c n] Let_def)
    with "1.IH" nz fail False obtain k where
      k1: "\<forall>j\<le>k. n + 1 + of_nat j \<noteq> 0 \<and> \<not> alloc_ok E (Suc c + j)"
      and k2: "\<forall>j<k. \<not> m div (n + 1 + of_nat j) < MIN_IN_CORE_RECORDS E"
      and k3: "m div (n + 1 + of_nat k) < MIN_IN_CORE_RECORDS E"
      by (auto simp: Let_def)
    have "\<forall>j\<le>Suc k. n + of_nat j \<noteq> 0 \<and> \<not> alloc_ok E (c + j)"
    proof (intro allI impI)
      fix j assume j: "j \<le> Suc k"
      show "n + of_nat j \<noteq> 0 \<and> \<not> alloc_ok E (c + j)"
      proof (cases j)
        case 0
        with nz fail show ?thesis by simp
      next
        case (Suc i)
        with j k1 have "n + 1 + of_nat i \<noteq> 0 \<and> \<not> alloc_ok E (Suc c + i)" by simp
        with Suc show ?thesis by (simp add: add.assoc)
      qed
    qed
    moreover have "\<forall>j<Suc k. \<not> m div (n + of_nat j) < MIN_IN_CORE_RECORDS E"
    proof (intro allI impI)
      fix j assume j: "j < Suc k"
      show "\<not> m div (n + of_nat j) < MIN_IN_CORE_RECORDS E"
      proof (cases j)
        case 0
        with False show ?thesis by simp
      next
        case (Suc i)
        with j k2 have "\<not> m div (n + 1 + of_nat i) < MIN_IN_CORE_RECORDS E" by simp
        with Suc show ?thesis by (simp add: add.assoc)
      qed
    qed
    moreover have "m div (n + of_nat (Suc k)) < MIN_IN_CORE_RECORDS E"
      using k3 by (simp add: add.assoc)
    ultimately show ?thesis by blast
  qed
qed

lemma initial_chunk_exit_if:
  "(\<forall>j\<le>k. n + of_nat j \<noteq> 0 \<and> \<not> alloc_ok E (c + j)) \<Longrightarrow>
   (\<forall>j<k. \<not> m div (n + of_nat j) < MIN_IN_CORE_RECORDS E) \<Longrightarrow>
   m div (n + of_nat k) < MIN_IN_CORE_RECORDS E \<Longrightarrow>
   initial_chunk E m c n = Inl Exit_Alloc"
proof (induction k arbitrary: c n)
  case 0
  then show ?case by (simp add: initial_chunk.simps [of E m c n] Let_def)
next
  case (Suc k)
  from Suc.prems(1) [rule_format, of 0]
  have nz: "n \<noteq> 0" and fail: "\<not> alloc_ok E c" by simp_all
  from Suc.prems(2) [rule_format, of 0]
  have ge: "\<not> m div n < MIN_IN_CORE_RECORDS E" by simp
  have "initial_chunk E m (Suc c) (n + 1) = Inl Exit_Alloc"
  proof (rule Suc.IH)
    show "\<forall>j\<le>k. n + 1 + of_nat j \<noteq> 0 \<and> \<not> alloc_ok E (Suc c + j)"
    proof (intro allI impI)
      fix j assume "j \<le> k"
      then have "Suc j \<le> Suc k" by simp
      from Suc.prems(1) [rule_format, OF this]
      have "n + of_nat (Suc j) \<noteq> 0 \<and> \<not> alloc_ok E (c + Suc j)" .
      then show "n + 1 + of_nat j \<noteq> 0 \<and> \<not> alloc_ok E (Suc c + j)" by (simp add: add.assoc)
    qed
    show "\<forall>j<k. \<not> m div (n + 1 + of_nat j) < MIN_IN_CORE_RECORDS E"
    proof (intro allI impI)
      fix j assume "j < k"
      then have "Suc j < Suc k" by simp
      from Suc.prems(2) [rule_format, OF this]
      have "\<not> m div (n + of_nat (Suc j)) < MIN_IN_CORE_RECORDS E" .
      then show "\<not> m div (n + 1 + of_nat j) < MIN_IN_CORE_RECORDS E" by (simp add: add.assoc)
    qed
    show "m div (n + 1 + of_nat k) < MIN_IN_CORE_RECORDS E"
      using Suc.prems(3) by (simp add: add.assoc)
  qed
  with nz fail ge show ?case by (simp add: initial_chunk.simps [of E m c n] Let_def)
qed

lemma initial_chunk_result:
  "initial_chunk E m c n = Inr (n', chunk, c') \<Longrightarrow>
     \<exists>k. n' = n + of_nat k \<and> chunk = m div n' \<and> c' = Suc (c + k) \<and> alloc_ok E (c + k)
        \<and> (\<forall>j<k. \<not> alloc_ok E (c + j))"
proof (induction E m c n rule: initial_chunk.induct)
  case (1 E m c n)
  from "1.prems" have nz: "n \<noteq> 0"
    by (auto simp: initial_chunk.simps [of E m c n] Let_def split: if_splits)
  show ?case
  proof (cases "alloc_ok E c")
    case True
    with "1.prems" nz have "n' = n + of_nat 0 \<and> chunk = m div n' \<and> c' = Suc (c + 0) \<and> alloc_ok E (c + 0)"
      by (auto simp: initial_chunk.simps [of E m c n] Let_def)
    then show ?thesis by (intro exI [of _ 0]) simp
  next
    case False
    with "1.prems" nz have ge: "\<not> m div n < MIN_IN_CORE_RECORDS E"
      and rec: "initial_chunk E m (Suc c) (n + 1) = Inr (n', chunk, c')"
      by (auto simp: initial_chunk.simps [of E m c n] Let_def split: if_splits)
    with "1.IH" nz False obtain k where
      k: "n' = n + 1 + of_nat k" "chunk = m div n'" "c' = Suc (Suc c + k)" "alloc_ok E (Suc c + k)"
      and k5: "\<forall>j<k. \<not> alloc_ok E (Suc c + j)"
      by (auto simp: Let_def)
    have "\<forall>j<Suc k. \<not> alloc_ok E (c + j)"
    proof (intro allI impI)
      fix j assume j: "j < Suc k"
      show "\<not> alloc_ok E (c + j)"
      proof (cases j)
        case 0
        with False show ?thesis by simp
      next
        case (Suc i)
        with j k5 have "\<not> alloc_ok E (Suc c + i)" by simp
        with Suc show ?thesis by simp
      qed
    qed
    moreover have "n' = n + of_nat (Suc k)" "c' = Suc (c + Suc k)" "alloc_ok E (c + Suc k)"
      using k by (simp_all add: add.assoc)
    ultimately show ?thesis using k(2) by blast
  qed
qed

text \<open>
  Claim C5, as the code has it. The initial allocation is retried with \<open>num_chunks\<close>
  incremented by one (not doubled): after \<open>k\<close> failed attempts the divisor is
  \<open>num_chunks + k\<close> and the chunk \<open>buffer_max_recs / (num_chunks + k)\<close>. The loop
  exits with the fatal error exactly when an allocation fails whose chunk is already
  below \<open>MIN_IN_CORE_RECORDS\<close>, every earlier attempt having failed with a chunk not
  below it; so one allocation below the floor is attempted.
\<close>

theorem initial_chunk_retry:
  "(initial_chunk E m c n = Inl Exit_Alloc \<longleftrightarrow>
      (\<exists>k. (\<forall>j\<le>k. n + of_nat j \<noteq> 0 \<and> \<not> alloc_ok E (c + j))
          \<and> (\<forall>j<k. \<not> m div (n + of_nat j) < MIN_IN_CORE_RECORDS E)
          \<and> m div (n + of_nat k) < MIN_IN_CORE_RECORDS E))
   \<and> (initial_chunk E m c n = Inr (n', chunk, c') \<longrightarrow>
      (\<exists>k. n' = n + of_nat k \<and> chunk = m div n' \<and> c' = Suc (c + k) \<and> alloc_ok E (c + k)
          \<and> (\<forall>j<k. \<not> alloc_ok E (c + j))))"
  using initial_chunk_exit_only_if [of E m c n] initial_chunk_exit_if [of _ n E c m]
    initial_chunk_result [of E m c n n' chunk c']
  by blast

text \<open>
  The claim as stated fails: with \<open>buffer_max_recs = 8000\<close>, \<open>num_chunks = 4\<close> and only
  the first allocation failing, the second attempt is made with divisor 5 and chunk
  1600, not with divisor 8 and chunk 1000.
\<close>

theorem initial_chunk_counterexample:
  "initial_chunk (example_env\<lparr>alloc_ok := (\<lambda>k. k \<noteq> 0)\<rparr>) 8000 0 4 = Inr (5, 1600, 2)
   \<and> initial_chunk (example_env\<lparr>alloc_ok := (\<lambda>k. k \<noteq> 0)\<rparr>) 8000 0 4 \<noteq> Inr (2 * 4, 8000 div (2 * 4), 2)"
  by (simp add: example_env_def initial_chunk.simps Let_def)

theorem initial_chunk_retry_witness:
  "initial_chunk (example_env\<lparr>alloc_ok := (\<lambda>k. False)\<rparr>) 1500 0 1 = Inl Exit_Alloc"
proof -
  let ?E = "example_env\<lparr>alloc_ok := (\<lambda>k. False)\<rparr>"
  have a: "\<forall>j\<le>1. (1 :: 32 word) + of_nat j \<noteq> 0 \<and> \<not> alloc_ok ?E (0 + j)"
  proof (intro allI impI)
    fix j :: nat assume "j \<le> 1"
    then consider "j = 0" | "j = 1" by arith
    then show "(1 :: 32 word) + of_nat j \<noteq> 0 \<and> \<not> alloc_ok ?E (0 + j)"
      by cases simp_all
  qed
  have b: "\<forall>j<1. \<not> (1500 :: 32 word) div (1 + of_nat j) < MIN_IN_CORE_RECORDS ?E"
    by (simp add: example_env_def)
  have c: "(1500 :: 32 word) div (1 + of_nat 1) < MIN_IN_CORE_RECORDS ?E"
    by (simp add: example_env_def)
  from a b c have "\<exists>k. (\<forall>j\<le>k. (1 :: 32 word) + of_nat j \<noteq> 0 \<and> \<not> alloc_ok ?E (0 + j))
          \<and> (\<forall>j<k. \<not> (1500 :: 32 word) div (1 + of_nat j) < MIN_IN_CORE_RECORDS ?E)
          \<and> (1500 :: 32 word) div (1 + of_nat k) < MIN_IN_CORE_RECORDS ?E"
    by blast
  with initial_chunk_retry [of ?E 1500 0 1] show ?thesis by blast
qed




section \<open>What a merge writes\<close>

text \<open>
  The notions the statements about the merge are made of. \<open>cmp_le c x y\<close> says that
  the comparator puts \<open>x\<close> before or level with \<open>y\<close>; \<open>total_preorder c\<close> that the
  comparator is one: a non-negative result turns non-positive when the arguments are
  swapped, and \<open>cmp_le c\<close> is transitive. \<open>put E fp w L\<close> is the world after the
  records \<open>L\<close> have been written one by one without a fatal error to the destination
  \<open>fp\<close>: appended to the temp file of that index, or handed to the output stream, which
  takes those with status \<open>W_OK\<close>. \<open>run_of p i\<close> is what slot \<open>i\<close> still has to give:
  the record in \<open>recs\<close> and the unread rest of its reader; \<open>pending p\<close> collects this
  over the slots in the heap.
\<close>

definition cmp_le :: "('n \<Rightarrow> 'n \<Rightarrow> int) \<Rightarrow> 'n \<Rightarrow> 'n \<Rightarrow> bool" where
  "cmp_le c x y \<longleftrightarrow> c x y \<le> 0"

definition total_preorder :: "('n \<Rightarrow> 'n \<Rightarrow> int) \<Rightarrow> bool" where
  "total_preorder c \<longleftrightarrow>
     (\<forall>a b. 0 \<le> c a b \<longrightarrow> c b a \<le> 0) \<and> (\<forall>a b d. c a b \<le> 0 \<longrightarrow> c b d \<le> 0 \<longrightarrow> c a d \<le> 0)"

definition file_content :: "'n world \<Rightarrow> int \<Rightarrow> 'n list" where
  "file_content w j = (case files w j of None \<Rightarrow> [] | Some c \<Rightarrow> c)"

definition put1 :: "'n env \<Rightarrow> int option \<Rightarrow> 'n world \<Rightarrow> 'n \<Rightarrow> 'n world" where
  "put1 E fpi w n =
     (case fpi of
        None \<Rightarrow> if wstat E n = W_OK then w\<lparr>out_rwios := out_rwios w @ [n]\<rparr> else w
      | Some idx \<Rightarrow> w\<lparr>files := (files w)(idx \<mapsto> file_content w idx @ [n])\<rparr>)"

definition put :: "'n env \<Rightarrow> int option \<Rightarrow> 'n world \<Rightarrow> 'n list \<Rightarrow> 'n world" where
  "put E fpi w L = fold (\<lambda>n w. put1 E fpi w n) L w"

definition run_of :: "'n readers \<Rightarrow> nat \<Rightarrow> 'n list" where
  "run_of p i = recs p ! i # fps p ! i"

definition pending :: "'n readers \<Rightarrow> 'n multiset" where
  "pending p = (\<Sum>i\<in>set (heap p). mset (run_of p i))"

definition wf_readers :: "'n readers \<Rightarrow> bool" where
  "wf_readers p \<longleftrightarrow> distinct (heap p) \<and> (\<forall>i\<in>set (heap p). i < length (fps p) \<and> i < length (recs p))"

lemma write_lowest_put1: "write_lowest E fpi w n = Inr w' \<Longrightarrow> w' = put1 E fpi w n"
  by (auto simp: write_lowest_def put1_def fwrite_temp_def write_output_def skStreamWriteRecord_def
        file_content_def split: option.splits if_splits wstatus.splits)

lemma put_Nil [simp]: "put E fpi w [] = w"
  by (simp add: put_def)

lemma put_Cons: "put E fpi w (n # L) = put E fpi (put1 E fpi w n) L"
  by (simp add: put_def)

lemma put_append: "put E fpi w (L1 @ L2) = put E fpi (put E fpi w L1) L2"
  by (simp add: put_def)

lemma write_all_put: "write_all E fpi w L = Inr w' \<Longrightarrow> w' = put E fpi w L"
proof (induction L arbitrary: w)
  case Nil
  then show ?case by simp
next
  case (Cons n L)
  then show ?case
    by (auto simp: put_Cons split: sum.splits dest!: write_lowest_put1)
qed

lemma put_None:
  "put E None w L = w\<lparr>out_rwios := out_rwios w @ filter (\<lambda>n. wstat E n = W_OK) L\<rparr>"
  by (induction L arbitrary: w) (simp_all add: put_Cons put1_def)

lemma put_Some:
  "files w idx \<noteq> None \<or> L \<noteq> [] \<Longrightarrow>
     put E (Some idx) w L = w\<lparr>files := (files w)(idx \<mapsto> file_content w idx @ L)\<rparr>"
proof (induction L arbitrary: w)
  case Nil
  then obtain y where "files w idx = Some y" by auto
  then show ?case by (simp add: file_content_def map_upd_triv)
next
  case (Cons n L)
  let ?w1 = "put1 E (Some idx) w n"
  have f1: "files ?w1 = (files w)(idx \<mapsto> file_content w idx @ [n])"
    by (simp add: put1_def)
  then have c1: "file_content ?w1 idx = file_content w idx @ [n]"
    by (simp add: file_content_def)
  have "put E (Some idx) ?w1 L = ?w1\<lparr>files := (files ?w1)(idx \<mapsto> file_content ?w1 idx @ L)\<rparr>"
    by (rule Cons.IH) (simp add: f1)
  also have "\<dots> = w\<lparr>files := (files w)(idx \<mapsto> file_content w idx @ n # L)\<rparr>"
    unfolding c1 f1 by (simp add: put1_def)
  finally show ?case unfolding put_Cons .
qed

lemma total_preorder_refl: "total_preorder c \<Longrightarrow> c a a \<le> 0"
  unfolding total_preorder_def by (metis linorder_le_cases)

lemma total_preorder_trans:
  "total_preorder c \<Longrightarrow> cmp_le c x y \<Longrightarrow> cmp_le c y z \<Longrightarrow> cmp_le c x z"
  unfolding total_preorder_def cmp_le_def by blast

lemma heap_top_from_min:
  assumes "total_preorder c"
  shows "cmp_le c (v ! heap_top_from (compHeapNodes c v) t ys) (v ! t)
         \<and> (\<forall>y\<in>set ys. cmp_le c (v ! heap_top_from (compHeapNodes c v) t ys) (v ! y))"
proof (induction ys arbitrary: t)
  case Nil
  from total_preorder_refl [OF assms] show ?case by (simp add: cmp_le_def)
next
  case (Cons y ys)
  let ?t' = "if compHeapNodes c v y t > 0 then y else t"
  let ?r = "heap_top_from (compHeapNodes c v) ?t' ys"
  from Cons.IH [of ?t'] have r: "cmp_le c (v ! ?r) (v ! ?t')" "\<forall>z\<in>set ys. cmp_le c (v ! ?r) (v ! z)"
    by auto
  have t'y: "cmp_le c (v ! ?t') (v ! y)" and t't: "cmp_le c (v ! ?t') (v ! t)"
    using assms total_preorder_refl [OF assms]
    by (auto simp: compHeapNodes_def total_preorder_def cmp_le_def)
  from r(1) t'y t't have "cmp_le c (v ! ?r) (v ! y)" "cmp_le c (v ! ?r) (v ! t)"
    by (blast intro: total_preorder_trans [OF assms])+
  with r(2) show ?case by simp
qed

lemma skHeapPeekTop_min:
  assumes "total_preorder c" and "skHeapPeekTop (compHeapNodes c v) h = Some t"
  shows "\<forall>i\<in>set h. cmp_le c (v ! t) (v ! i)"
  using assms(2) heap_top_from_min [OF assms(1), of v]
  by (auto simp: skHeapPeekTop_def split: list.splits)

lemma pending_remove:
  assumes "distinct (heap p)" and "i \<in> set (heap p)"
  shows "pending p = mset (run_of p i) + (\<Sum>j\<in>set (heap p) - {i}. mset (run_of p j))"
  unfolding pending_def using assms(2) by (simp add: sum.remove)

lemma merge_step_mset:
  assumes "merge_step E fpi (w, p) = Inr (w', p')" and "wf_readers p"
  shows "\<exists>lowest. skHeapPeekTop (compHeapNodes (cmp E) (recs p)) (heap p) = Some lowest
           \<and> w' = put1 E fpi w (recs p ! lowest)
           \<and> add_mset (recs p ! lowest) (pending p') = pending p
           \<and> wf_readers p'
           \<and> set (heap p') \<subseteq> set (heap p)
           \<and> (\<forall>i\<in>set (heap p'). i \<noteq> lowest \<longrightarrow> run_of p' i = run_of p i)
           \<and> (lowest \<in> set (heap p') \<longrightarrow> run_of p lowest = recs p ! lowest # run_of p' lowest)"
proof -
  from assms(1) obtain lowest where top: "skHeapPeekTop (compHeapNodes (cmp E) (recs p)) (heap p) = Some lowest"
    by (auto simp: merge_step_def split: option.splits)
  then have mem: "lowest \<in> set (heap p)" by (rule skHeapPeekTop_mem)
  with assms(2) have lt: "lowest < length (fps p)" "lowest < length (recs p)" and dist: "distinct (heap p)"
    by (auto simp: wf_readers_def)
  from assms(1) top lt obtain w1 where
    w1: "write_lowest E fpi w (recs p ! lowest) = Inr w1"
    by (auto simp: merge_step_def slot_def split: sum.splits)
  then have w1': "w1 = put1 E fpi w (recs p ! lowest)" by (rule write_lowest_put1)
  have pend: "pending p = mset (run_of p lowest) + (\<Sum>j\<in>set (heap p) - {lowest}. mset (run_of p j))"
    using dist mem by (rule pending_remove)
  show ?thesis
  proof (cases "fps p ! lowest")
    case Nil
    with assms(1) top lt w1 have p': "p' = p\<lparr>heap := remove1 lowest (heap p)\<rparr>" and w': "w' = w1"
      by (auto simp: merge_step_def slot_def skHeapExtractTop_def)
    have set': "set (heap p') = set (heap p) - {lowest}"
      using dist by (simp add: p')
    have run': "run_of p' j = run_of p j" for j
      by (simp add: p' run_of_def)
    have "pending p' = (\<Sum>j\<in>set (heap p) - {lowest}. mset (run_of p j))"
      by (simp add: pending_def set' run')
    with pend Nil have "add_mset (recs p ! lowest) (pending p') = pending p"
      by (simp add: run_of_def)
    moreover have "wf_readers p'"
      using assms(2) by (auto simp: wf_readers_def p')
    ultimately show ?thesis
      using top w' w1' set' run' by auto
  next
    case (Cons x rest)
    with assms(1) top lt w1 have p': "p' = p\<lparr>fps := (fps p)[lowest := rest], recs := (recs p)[lowest := x],
                                 heap := remove1 lowest (heap p) @ [lowest]\<rparr>" and w': "w' = w1"
      by (auto simp: merge_step_def slot_def skHeapReplaceTop_def)
    have set': "set (heap p') = set (heap p)"
      using mem dist by (auto simp: p')
    have run_other: "run_of p' j = run_of p j" if "j \<noteq> lowest" for j
      using that by (simp add: p' run_of_def)
    have run_low: "run_of p' lowest = x # rest"
      using lt by (simp add: p' run_of_def)
    have "pending p' = mset (run_of p' lowest) + (\<Sum>j\<in>set (heap p) - {lowest}. mset (run_of p' j))"
      unfolding pending_def set' using mem by (simp add: sum.remove)
    also have "(\<Sum>j\<in>set (heap p) - {lowest}. mset (run_of p' j))
               = (\<Sum>j\<in>set (heap p) - {lowest}. mset (run_of p j))"
      by (rule sum.cong) (auto simp: run_other)
    finally have "pending p' = mset (x # rest) + (\<Sum>j\<in>set (heap p) - {lowest}. mset (run_of p j))"
      by (simp only: run_low)
    moreover have "run_of p lowest = recs p ! lowest # x # rest"
      using Cons by (simp add: run_of_def)
    ultimately have "add_mset (recs p ! lowest) (pending p') = pending p"
      using pend by simp
    moreover have "wf_readers p'"
      using assms(2) mem dist by (auto simp: wf_readers_def p')
    moreover have "run_of p lowest = recs p ! lowest # run_of p' lowest"
      using Cons by (simp only: run_low) (simp add: run_of_def)
    ultimately show ?thesis
      using top w' w1' set' run_other by auto
  qed
qed

definition runs_sorted :: "('n \<Rightarrow> 'n \<Rightarrow> int) \<Rightarrow> 'n readers \<Rightarrow> bool" where
  "runs_sorted c p \<longleftrightarrow> (\<forall>i\<in>set (heap p). sorted_wrt (cmp_le c) (run_of p i))"

lemma in_sum_mset: "finite A \<Longrightarrow> y \<in># (\<Sum>i\<in>A. f i) \<longleftrightarrow> (\<exists>i\<in>A. y \<in># f i)"
  by (induction A rule: finite_induct) auto

lemma in_pending: "y \<in># pending p \<longleftrightarrow> (\<exists>i\<in>set (heap p). y \<in> set (run_of p i))"
  by (simp add: pending_def in_sum_mset)

lemma pending_ge_top:
  assumes "total_preorder c" and "runs_sorted c p"
    and "skHeapPeekTop (compHeapNodes c (recs p)) (heap p) = Some lowest"
    and "y \<in># pending p"
  shows "cmp_le c (recs p ! lowest) y"
proof -
  from assms(4) obtain i where i: "i \<in> set (heap p)" "y \<in> set (run_of p i)"
    by (auto simp: in_pending)
  from skHeapPeekTop_min [OF assms(1,3)] i(1) have top: "cmp_le c (recs p ! lowest) (recs p ! i)"
    by blast
  from assms(2) i(1) have "sorted_wrt (cmp_le c) (recs p ! i # fps p ! i)"
    by (auto simp: runs_sorted_def run_of_def)
  with i(2) have "y = recs p ! i \<or> cmp_le c (recs p ! i) y"
    by (auto simp: run_of_def)
  with top show ?thesis
    by (auto intro: total_preorder_trans [OF assms(1)])
qed

lemma merge_step_sorted:
  assumes "merge_step E fpi (w, p) = Inr (w', p')" and "wf_readers p" and "runs_sorted c p"
  shows "runs_sorted c p'"
proof -
  from merge_step_mset [OF assms(1,2)] obtain lowest where
    sub: "set (heap p') \<subseteq> set (heap p)"
    and other: "\<forall>i\<in>set (heap p'). i \<noteq> lowest \<longrightarrow> run_of p' i = run_of p i"
    and low: "lowest \<in> set (heap p') \<longrightarrow> run_of p lowest = recs p ! lowest # run_of p' lowest"
    by blast
  show ?thesis
    unfolding runs_sorted_def
  proof
    fix i assume i: "i \<in> set (heap p')"
    with sub assms(3) have srt: "sorted_wrt (cmp_le c) (run_of p i)"
      by (auto simp: runs_sorted_def)
    show "sorted_wrt (cmp_le c) (run_of p' i)"
    proof (cases "i = lowest")
      case True
      with i low srt show ?thesis by simp
    next
      case False
      with i other srt show ?thesis by simp
    qed
  qed
qed

lemma merge_loop_result:
  assumes "merge_loop E fpi (w, p) = Inr (w', p')" and "wf_readers p"
  shows "\<exists>L. w' = put E fpi w L \<and> mset L + pending p' = pending p \<and> wf_readers p'
            \<and> length (heap p') \<le> 1
            \<and> (total_preorder (cmp E) \<longrightarrow> runs_sorted (cmp E) p \<longrightarrow>
                 sorted_wrt (cmp_le (cmp E)) L \<and> runs_sorted (cmp E) p'
                 \<and> (\<forall>x\<in>set L. \<forall>y\<in>#pending p'. cmp_le (cmp E) x y))"
  using assms
proof (induction E fpi "(w, p)" arbitrary: w p rule: merge_loop.induct)
  case (1 E fpi w p)
  show ?case
  proof (cases "1 < length (heap p)")
    case False
    with "1.prems" have "w' = w" "p' = p"
      by (simp_all add: merge_loop.simps [of E fpi "(w, p)"])
    with False "1.prems"(2) show ?thesis
      by (intro exI [of _ "[]"]) simp
  next
    case True
    with "1.prems"(1) obtain w1 p1 where
      step: "merge_step E fpi (w, p) = Inr (w1, p1)" and
      rest: "merge_loop E fpi (w1, p1) = Inr (w', p')"
      by (auto simp: merge_loop.simps [of E fpi "(w, p)"] split: sum.splits)
    from merge_step_mset [OF step "1.prems"(2)] obtain lowest where
      top: "skHeapPeekTop (compHeapNodes (cmp E) (recs p)) (heap p) = Some lowest" and
      s: "w1 = put1 E fpi w (recs p ! lowest)" "add_mset (recs p ! lowest) (pending p1) = pending p"
         "wf_readers p1"
      by blast
    from True have "1 < length (heap (snd (w, p)))" by simp
    from "1.hyps" [OF this step rest s(3)] obtain L where
      L: "w' = put E fpi w1 L" "mset L + pending p' = pending p1" "wf_readers p'" "length (heap p') \<le> 1"
      and Ls: "total_preorder (cmp E) \<longrightarrow> runs_sorted (cmp E) p1 \<longrightarrow>
                 sorted_wrt (cmp_le (cmp E)) L \<and> runs_sorted (cmp E) p'
                 \<and> (\<forall>x\<in>set L. \<forall>y\<in>#pending p'. cmp_le (cmp E) x y)"
      by auto
    let ?n = "recs p ! lowest"
    have sub1: "set L \<subseteq> set_mset (pending p1)" and sub2: "set_mset (pending p') \<subseteq> set_mset (pending p1)"
      using L(2) by (metis set_mset_mset mset_subset_eq_add_left set_mset_mono,
                    metis mset_subset_eq_add_right set_mset_mono)
    have sub3: "set_mset (pending p1) \<subseteq> set_mset (pending p)"
      using s(2) by (metis set_mset_add_mset_insert subset_insertI)
    have srt: "sorted_wrt (cmp_le (cmp E)) (?n # L) \<and> runs_sorted (cmp E) p'
                 \<and> (\<forall>x\<in>set (?n # L). \<forall>y\<in>#pending p'. cmp_le (cmp E) x y)"
      if tp: "total_preorder (cmp E)" and rs: "runs_sorted (cmp E) p"
    proof -
      from merge_step_sorted [OF step "1.prems"(2) rs] have rs1: "runs_sorted (cmp E) p1" .
      with Ls tp have l: "sorted_wrt (cmp_le (cmp E)) L" "runs_sorted (cmp E) p'"
        "\<forall>x\<in>set L. \<forall>y\<in>#pending p'. cmp_le (cmp E) x y"
        by auto
      have ge: "cmp_le (cmp E) ?n y" if "y \<in># pending p" for y
        using pending_ge_top [OF tp rs top that] .
      from ge sub1 sub2 sub3 have "\<forall>x\<in>set L. cmp_le (cmp E) ?n x"
        "\<forall>y\<in>#pending p'. cmp_le (cmp E) ?n y"
        by auto
      with l show ?thesis by simp
    qed
    show ?thesis
    proof (intro exI [of _ "?n # L"] conjI)
      show "w' = put E fpi w (?n # L)"
        by (simp add: put_Cons L(1) s(1))
      show "mset (?n # L) + pending p' = pending p"
        using L(2) s(2) by (metis add_mset_add_single mset.simps(2) union_mset_add_mset_left)
      show "total_preorder (cmp E) \<longrightarrow> runs_sorted (cmp E) p \<longrightarrow>
              sorted_wrt (cmp_le (cmp E)) (?n # L) \<and> runs_sorted (cmp E) p'
              \<and> (\<forall>x\<in>set (?n # L). \<forall>y\<in>#pending p'. cmp_le (cmp E) x y)"
        using srt by blast
    qed (use L in auto)
  qed
qed

lemma single_heap:
  assumes "length h \<le> 1" and "skHeapPeekTop cf h = Some t"
  shows "h = [t]"
  using assms by (cases h) (auto simp: skHeapPeekTop_def)

lemma drain_slot_put:
  assumes "drain_slot E fpi (w, p) lowest = Inr (w', p')"
  shows "w' = put E fpi w (run_of p lowest) \<and> lowest < length (fps p) \<and> lowest < length (recs p)"
proof -
  from assms have lt: "lowest < length (fps p)" "lowest < length (recs p)"
    by (auto simp: drain_slot_def slot_def split: if_splits option.splits)
  with assms have "write_all E fpi w (recs p ! lowest # fps p ! lowest) = Inr w'"
    by (auto simp: drain_slot_def slot_def simp del: write_all.simps split: sum.splits)
  from write_all_put [OF this] lt show ?thesis by (simp add: run_of_def)
qed

lemma drain_remaining_result:
  assumes "drain_remaining E fpi (w, p) = Inr (w', p')" and "length (heap p) \<le> 1"
  shows "\<exists>lowest. heap p = [lowest] \<and> w' = put E fpi w (run_of p lowest)
           \<and> mset (run_of p lowest) = pending p"
proof -
  from assms(1) obtain lowest where
    top: "skHeapPeekTop (compHeapNodes (cmp E) (recs p)) (heap p) = Some lowest"
    and dr: "drain_slot E fpi (w, p) lowest = Inr (w', p')"
    by (auto simp: drain_remaining_def split: option.splits)
  from single_heap [OF assms(2) top] have h: "heap p = [lowest]" .
  then have "pending p = mset (run_of p lowest)"
    by (simp add: pending_def)
  with h drain_slot_put [OF dr] show ?thesis by simp
qed

lemma drain_presorted_result:
  assumes "drain_presorted E fpi (w, p) = Inr (w', p')" and "length (heap p) \<le> 1"
  shows "\<exists>L. w' = put E fpi w L \<and> mset L = pending p \<and> (L = [] \<or> (\<exists>i. heap p = [i] \<and> L = run_of p i))"
proof (cases "skHeapPeekTop (compHeapNodes (cmp E) (recs p)) (heap p)")
  case None
  then have "heap p = []"
    by (auto simp: skHeapPeekTop_def split: list.splits)
  with None assms(1) show ?thesis
    by (intro exI [of _ "[]"]) (auto simp: drain_presorted_def pending_def)
next
  case (Some lowest)
  with assms(1) have dr: "drain_slot E fpi (w, p) lowest = Inr (w', p')"
    by (simp add: drain_presorted_def)
  from single_heap [OF assms(2) Some] have h: "heap p = [lowest]" .
  then have "pending p = mset (run_of p lowest)"
    by (simp add: pending_def)
  with h drain_slot_put [OF dr] show ?thesis by auto
qed

lemma sorted_wrt_append_bound:
  assumes "sorted_wrt P L1" and "sorted_wrt P L2" and "\<forall>x\<in>set L1. \<forall>y\<in>set L2. P x y"
  shows "sorted_wrt P (L1 @ L2)"
  using assms by (simp add: sorted_wrt_append)

lemma merge_and_drain:
  assumes "merge_loop E fpi (w, p) = Inr wp1"
    and "drain_remaining E fpi wp1 = Inr (w', p') \<or> drain_presorted E fpi wp1 = Inr (w', p')"
    and "wf_readers p"
  shows "\<exists>L. w' = put E fpi w L \<and> mset L = pending p
            \<and> (drain_remaining E fpi wp1 = Inr (w', p') \<longrightarrow> L \<noteq> [])
            \<and> (total_preorder (cmp E) \<longrightarrow> runs_sorted (cmp E) p \<longrightarrow> sorted_wrt (cmp_le (cmp E)) L)"
proof -
  obtain w1 p1 where wp1: "wp1 = (w1, p1)" by (cases wp1)
  from merge_loop_result [OF assms(1) [unfolded wp1] assms(3)] obtain L1 where
    L1: "w1 = put E fpi w L1" "mset L1 + pending p1 = pending p" "wf_readers p1" "length (heap p1) \<le> 1"
    and S1: "total_preorder (cmp E) \<longrightarrow> runs_sorted (cmp E) p \<longrightarrow>
                 sorted_wrt (cmp_le (cmp E)) L1 \<and> runs_sorted (cmp E) p1
                 \<and> (\<forall>x\<in>set L1. \<forall>y\<in>#pending p1. cmp_le (cmp E) x y)"
    by blast
  from assms(2) obtain L2 where
    L2: "w' = put E fpi w1 L2" "mset L2 = pending p1" "L2 = [] \<or> (\<exists>i. heap p1 = [i] \<and> L2 = run_of p1 i)"
  proof
    assume "drain_remaining E fpi wp1 = Inr (w', p')"
    from drain_remaining_result [OF this [unfolded wp1] L1(4)] that show ?thesis by blast
  next
    assume "drain_presorted E fpi wp1 = Inr (w', p')"
    from drain_presorted_result [OF this [unfolded wp1] L1(4)] that show ?thesis by blast
  qed
  have "sorted_wrt (cmp_le (cmp E)) (L1 @ L2)"
    if tp: "total_preorder (cmp E)" and rs: "runs_sorted (cmp E) p"
  proof -
    from S1 tp rs have s: "sorted_wrt (cmp_le (cmp E)) L1" "runs_sorted (cmp E) p1"
      "\<forall>x\<in>set L1. \<forall>y\<in>#pending p1. cmp_le (cmp E) x y"
      by auto
    from L2(3) s(2) have "sorted_wrt (cmp_le (cmp E)) L2"
      by (auto simp: runs_sorted_def)
    moreover from s(3) L2(2) have "\<forall>x\<in>set L1. \<forall>y\<in>set L2. cmp_le (cmp E) x y"
      by (metis set_mset_mset)
    ultimately show ?thesis using s(1) by (simp add: sorted_wrt_append)
  qed
  moreover have "w' = put E fpi w (L1 @ L2)"
    by (simp add: put_append L1(1) L2(1))
  moreover have "mset (L1 @ L2) = pending p"
    using L1(2) L2(2) by simp
  moreover have "L1 @ L2 \<noteq> []" if "drain_remaining E fpi wp1 = Inr (w', p')"
  proof -
    from drain_remaining_result [OF that [unfolded wp1] L1(4)] obtain lowest where
      "mset (run_of p1 lowest) = pending p1" by blast
    with L2(2) have "mset L2 = mset (run_of p1 lowest)" by simp
    then have "L2 \<noteq> []" by (auto simp: run_of_def)
    then show ?thesis by simp
  qed
  ultimately show ?thesis by blast
qed

lemma skTempFileOpen_result:
  assumes "skTempFileOpen E w j = (r, w1)"
  shows "w1 = w\<lparr>open_calls := open_calls w + 1\<rparr>"
    and "r = Inr c \<Longrightarrow> files w j = Some c"
  using assms
  by (auto simp: skTempFileOpen_def Let_def split: open_reply.splits option.splits)

lemma readers_append:
  fixes p :: "'n readers" and rest :: "'n list" and x :: 'n
  assumes "wf_readers p" and "length (recs p) = length (fps p)"
  defines "p1 \<equiv> p\<lparr>fps := fps p @ [rest], recs := recs p @ [x],
                    heap := skHeapInsert (heap p) (open_count p)\<rparr>"
  shows "wf_readers p1" and "length (recs p1) = length (fps p1)"
    and "pending p1 = pending p + mset (x # rest)"
    and "runs_sorted c p \<Longrightarrow> sorted_wrt (cmp_le c) (x # rest) \<Longrightarrow> runs_sorted c p1"
proof -
  let ?k = "length (fps p)"
  have heap1: "heap p1 = heap p @ [?k]"
    by (simp add: p1_def skHeapInsert_def open_count_def)
  from assms(1) have lt: "\<forall>i\<in>set (heap p). i < ?k" and dist: "distinct (heap p)"
    by (auto simp: wf_readers_def)
  then have notin: "?k \<notin> set (heap p)" by auto
  have old: "run_of p1 i = run_of p i" if "i \<in> set (heap p)" for i
    using that lt assms(2) by (simp add: run_of_def p1_def nth_append)
  have new: "run_of p1 ?k = x # rest"
    using assms(2) by (simp add: run_of_def p1_def nth_append)
  show "wf_readers p1"
    using lt dist notin assms(2) by (auto simp: wf_readers_def heap1) (auto simp: p1_def)
  show "length (recs p1) = length (fps p1)"
    using assms(2) by (simp add: p1_def)
  have "pending p1 = mset (run_of p1 ?k) + (\<Sum>i\<in>set (heap p). mset (run_of p1 i))"
    using notin by (simp add: pending_def heap1)
  also have "(\<Sum>i\<in>set (heap p). mset (run_of p1 i)) = (\<Sum>i\<in>set (heap p). mset (run_of p i))"
    by (rule sum.cong) (auto simp: old)
  finally show "pending p1 = pending p + mset (x # rest)"
    by (simp add: new pending_def)
  show "runs_sorted c p1" if "runs_sorted c p" "sorted_wrt (cmp_le c) (x # rest)"
    using that old new by (auto simp: runs_sorted_def heap1)
qed

lemma open_temps_result:
  assumes "open_temps E (w, p) b [a..b] = Inr (b', w', p')"
    and "wf_readers p" and "length (recs p) = length (fps p)"
  shows "(\<exists>k. w' = w\<lparr>open_calls := k\<rparr>) \<and> wf_readers p' \<and> length (recs p') = length (fps p')
         \<and> b' \<le> b \<and> (a \<le> b \<longrightarrow> a - 1 \<le> b') \<and> (a \<le> b \<longrightarrow> open_count p = 0 \<longrightarrow> a \<le> b')
         \<and> (a \<le> b \<longrightarrow> open_count p' = 0 \<longrightarrow> b' = b)
         \<and> (\<forall>j\<in>{a..b'}. files w j \<noteq> None)
         \<and> pending p' = pending p + (\<Sum>j\<leftarrow>[a..b']. mset (file_content w j))
         \<and> (runs_sorted c p \<longrightarrow> (\<forall>j\<in>{a..b'}. sorted_wrt (cmp_le c) (file_content w j))
               \<longrightarrow> runs_sorted c p')"
  using assms
proof (induction "nat (b + 1 - a)" arbitrary: a w p)
  case 0
  then have "[a..b] = []" by simp
  with "0.prems" have "b' = b" "w' = w" "p' = p" by simp_all
  moreover from 0 have "[a..b'] = []" "{a..b'} = {}" using \<open>b' = b\<close> by auto
  moreover have "\<exists>k. w = w\<lparr>open_calls := k\<rparr>"
    by (rule exI [of _ "open_calls w"]) simp
  ultimately show ?case using "0.prems" 0 by (auto simp del: upto.simps)
next
  case (Suc n)
  then have ab: "a \<le> b" and n: "n = nat (b + 1 - (a + 1))" by auto
  then have up: "[a..b] = a # [a + 1..b]" by (simp add: upto_rec1)
  obtain r w1 where op: "skTempFileOpen E w a = (r, w1)" by (cases "skTempFileOpen E w a")
  note o = skTempFileOpen_result [OF op]
  have w1k: "\<And>k. w1\<lparr>open_calls := k\<rparr> = w\<lparr>open_calls := k\<rparr>" by (simp add: o(1))
  have f1: "files w1 = files w" "file_content w1 = file_content w"
    by (auto simp: o(1) file_content_def fun_eq_iff)
  show ?case
  proof (cases r)
    case (Inl errno)
    with Suc.prems(1) up op have res: "b' = a - 1" "w' = w1" "p' = p" and oc: "open_count p > 0"
      by (auto simp del: upto.simps split: if_splits)
    then have "[a..b'] = []" "{a..b'} = {}" by auto
    with res oc ab Suc.prems(2,3) o(1) show ?thesis
      by (auto simp del: upto.simps intro: exI [of _ "open_calls w + 1"])
  next
    case (Inr content)
    then have fa: "files w a = Some content" using o(2) by simp
    then have ca: "file_content w a = content" by (simp add: file_content_def)
    show ?thesis
    proof (cases content)
      case Nil
      with Suc.prems(1) up op Inr have rec: "open_temps E (w1, p) b [a + 1..b] = Inr (b', w', p')"
        by (simp del: upto.simps)
      from Suc.hyps(1) [OF n rec Suc.prems(2,3), unfolded f1 w1k] have
        ih: "\<exists>k. w' = w\<lparr>open_calls := k\<rparr>" "wf_readers p'" "length (recs p') = length (fps p')"
          "b' \<le> b" "a + 1 \<le> b \<longrightarrow> a + 1 - 1 \<le> b'"
          "a + 1 \<le> b \<longrightarrow> open_count p' = 0 \<longrightarrow> b' = b"
          "\<forall>j\<in>{a + 1..b'}. files w j \<noteq> None"
          "pending p' = pending p + (\<Sum>j\<leftarrow>[a + 1..b']. mset (file_content w j))"
          "runs_sorted c p \<longrightarrow> (\<forall>j\<in>{a + 1..b'}. sorted_wrt (cmp_le c) (file_content w j))
               \<longrightarrow> runs_sorted c p'"
        by blast+
      have ab': "a \<le> b'"
      proof (cases "a + 1 \<le> b")
        case True
        with ih(5) show ?thesis by simp
      next
        case False
        with ab have "[a + 1..b] = []" by simp
        with rec have "b' = b" by simp
        with ab show ?thesis by simp
      qed
      have b'b: "open_count p' = 0 \<longrightarrow> b' = b"
      proof (cases "a + 1 \<le> b")
        case True
        with ih(6) show ?thesis by simp
      next
        case False
        with ab have "[a + 1..b] = []" by simp
        with rec show ?thesis by simp
      qed
      from ab' have up': "[a..b'] = a # [a + 1..b']" and set': "{a..b'} = insert a {a + 1..b'}"
        by (auto simp: upto_rec1)
      show ?thesis
        using ih ab' b'b fa ca Nil unfolding up' set'
        by (auto simp del: upto.simps)
    next
      case (Cons x rest)
      let ?p1 = "p\<lparr>fps := fps p @ [rest], recs := recs p @ [x],
                    heap := skHeapInsert (heap p) (open_count p)\<rparr>"
      note ra = readers_append [OF Suc.prems(2,3), where rest = rest and x = x]
      from Suc.prems(1) up op Inr Cons have rec: "open_temps E (w1, ?p1) b [a + 1..b] = Inr (b', w', p')"
        by (simp del: upto.simps)
      from Suc.hyps(1) [OF n rec ra(1,2), unfolded f1 w1k] have
        ih: "\<exists>k. w' = w\<lparr>open_calls := k\<rparr>" "wf_readers p'" "length (recs p') = length (fps p')"
          "b' \<le> b" "a + 1 \<le> b \<longrightarrow> a + 1 - 1 \<le> b'"
          "a + 1 \<le> b \<longrightarrow> open_count p' = 0 \<longrightarrow> b' = b"
          "\<forall>j\<in>{a + 1..b'}. files w j \<noteq> None"
          "pending p' = pending ?p1 + (\<Sum>j\<leftarrow>[a + 1..b']. mset (file_content w j))"
          "runs_sorted c ?p1 \<longrightarrow> (\<forall>j\<in>{a + 1..b'}. sorted_wrt (cmp_le c) (file_content w j))
               \<longrightarrow> runs_sorted c p'"
        by blast+
      have ab': "a \<le> b'"
      proof (cases "a + 1 \<le> b")
        case True
        with ih(5) show ?thesis by simp
      next
        case False
        with ab have "[a + 1..b] = []" by simp
        with rec have "b' = b" by simp
        with ab show ?thesis by simp
      qed
      have b'b: "open_count p' = 0 \<longrightarrow> b' = b"
      proof (cases "a + 1 \<le> b")
        case True
        with ih(6) show ?thesis by simp
      next
        case False
        with ab have "[a + 1..b] = []" by simp
        with rec show ?thesis by simp
      qed
      from ab' have up': "[a..b'] = a # [a + 1..b']" and set': "{a..b'} = insert a {a + 1..b'}"
        by (auto simp: upto_rec1)
      have "runs_sorted c p'"
        if "runs_sorted c p" "\<forall>j\<in>{a..b'}. sorted_wrt (cmp_le c) (file_content w j)"
      proof -
        from ab' have "a \<in> {a..b'}" by simp
        with that(2) have "sorted_wrt (cmp_le c) (file_content w a)" by blast
        with ca Cons have "sorted_wrt (cmp_le c) (x # rest)" by simp
        from ra(4) [OF that(1) this] that(2) ih(9) set' show ?thesis by auto
      qed
      moreover have "pending p' = pending p + (\<Sum>j\<leftarrow>[a..b']. mset (file_content w j))"
        unfolding up' using ih(8) ra(3) ca Cons by simp
      ultimately show ?thesis
        using ih(1-4) ab' b'b fa ih(7) unfolding set'
        by (auto simp del: upto.simps)
    qed
  qed
qed

lemma remove_temps_eq:
  "remove_temps w js = w\<lparr>files := (\<lambda>j. if j \<in> set js then None else files w j)\<rparr>"
proof (induction js arbitrary: w)
  case Nil
  show ?case by (simp add: remove_temps_def)
next
  case (Cons j js)
  have "remove_temps w (j # js) = remove_temps (skTempFileRemove w j) js"
    by (simp add: remove_temps_def)
  also have "\<dots> = (skTempFileRemove w j)\<lparr>files :=
      (\<lambda>i. if i \<in> set js then None else files (skTempFileRemove w j) i)\<rparr>"
    by (rule Cons.IH)
  also have "\<dots> = w\<lparr>files := (\<lambda>i. if i \<in> set (j # js) then None else files w i)\<rparr>"
    by (auto simp: skTempFileRemove_def fun_eq_iff)
  finally show ?case .
qed

lemma merge_pass_result:
  assumes mp: "merge_pass E (tfi, a, w) = Inr (nomore, tfi', a', w')"
  defines "idx \<equiv> next_index w"
  defines "w1 \<equiv> w\<lparr>files := (files w)(idx \<mapsto> []), next_index := idx + 1\<rparr>"
  defines "b \<equiv> (if tfi - a < MAX_MERGE_FILES E - 1 then tfi else a + MAX_MERGE_FILES E - 1)"
  shows "\<exists>L k. a \<le> a' - 1 \<and> a' - 1 \<le> b \<and> (nomore \<longleftrightarrow> a' - 1 = tfi)
           \<and> tfi' = (if nomore then tfi else idx)
           \<and> (\<forall>j\<in>{a..a' - 1}. files w1 j \<noteq> None)
           \<and> mset L = (\<Sum>j\<leftarrow>[a..a' - 1]. mset (file_content w1 j)) \<and> L \<noteq> []
           \<and> w' = remove_temps (put E (if nomore then None else Some idx) (w1\<lparr>open_calls := k\<rparr>) L)
                     [a..a' - 1]
           \<and> (total_preorder (cmp E) \<longrightarrow>
                (\<forall>j\<in>{a..a' - 1}. sorted_wrt (cmp_le (cmp E)) (file_content w1 j)) \<longrightarrow>
                sorted_wrt (cmp_le (cmp E)) L)"
proof -
  let ?init = "\<lparr>fps = [], recs = [], heap = []\<rparr> :: 'a readers"
  from mp have cr: "skTempFileCreate E w = Some (idx, w1)"
    by (auto simp: merge_pass_def skTempFileCreate_def idx_def w1_def Let_def split: if_splits)
  from mp cr obtain b' w2 p2 where
    ot: "open_temps E (w1, ?init) b [a..b] = Inr (b', w2, p2)"
    by (auto simp: merge_pass_def Let_def b_def simp del: upto.simps split: sum.splits)
  let ?fpi = "if b' = tfi then None else Some idx"
  from mp cr ot obtain wp3 w4 p4 where
    ml: "merge_loop E ?fpi (w2, p2) = Inr wp3" and
    dr: "drain_remaining E ?fpi wp3 = Inr (w4, p4)" and
    res: "nomore = (b' = tfi)" "tfi' = (if b' = tfi then tfi else idx)" "a' = b' + 1"
      "w' = remove_temps w4 [a..b']"
    by (auto simp: merge_pass_def Let_def b_def simp del: upto.simps split: sum.splits)
  have wf0: "wf_readers ?init" "length (recs ?init) = length (fps ?init)" "pending ?init = {#}"
    "runs_sorted (cmp E) ?init"
    by (simp_all add: wf_readers_def pending_def runs_sorted_def)
  from open_temps_result [OF ot wf0(1,2), of "cmp E"] obtain k where
    o: "w2 = w1\<lparr>open_calls := k\<rparr>" "wf_readers p2" "b' \<le> b"
       "\<forall>j\<in>{a..b'}. files w1 j \<noteq> None"
       "pending p2 = (\<Sum>j\<leftarrow>[a..b']. mset (file_content w1 j))"
       "(\<forall>j\<in>{a..b'}. sorted_wrt (cmp_le (cmp E)) (file_content w1 j)) \<longrightarrow> runs_sorted (cmp E) p2"
    using wf0(3,4) by auto
  from merge_and_drain [OF ml _ o(2)] dr obtain L where
    L: "w4 = put E ?fpi w2 L" "mset L = pending p2" "L \<noteq> []"
       "total_preorder (cmp E) \<longrightarrow> runs_sorted (cmp E) p2 \<longrightarrow> sorted_wrt (cmp_le (cmp E)) L"
    by blast
  have "a \<le> b'"
  proof (rule ccontr)
    assume "\<not> a \<le> b'"
    then have "[a..b'] = []" by simp
    with o(5) L(2,3) show False by simp
  qed
  with res o L show ?thesis
    by (intro exI [of _ L] exI [of _ k]) (auto simp del: upto.simps)
qed


section \<open>The records that go in and the runs on disk\<close>



definition stored :: "'n world \<Rightarrow> int \<Rightarrow> int \<Rightarrow> 'n multiset" where
  "stored w a b = (\<Sum>j\<leftarrow>[a..b]. mset (file_content w j))"


lemma mset_skQSort [simp]: "mset (skQSort c xs) = mset xs"
proof (induction c xs rule: skQSort.induct)
  case (1 c)
  show ?case by simp
next
  case (2 c p xs)
  have "mset (filter (\<lambda>x. c x p < 0) xs) + mset (filter (\<lambda>x. \<not> c x p < 0) xs) = mset xs"
    by (induction xs) simp_all
  with 2 show ?case by (simp del: mset_filter)
qed

lemma set_skQSort [simp]: "set (skQSort c xs) = set xs"
  by (metis mset_skQSort set_mset_mset)


lemma stored_empty [simp]: "b < a \<Longrightarrow> stored w a b = {#}"
  by (simp add: stored_def)

























section \<open>The output of the sort\<close>








text \<open>
  Claim C10. In \<^verbatim>\<open>mergeFiles\<close> the heap is empty at the point where the index of the
  remaining reader is extracted whenever every temp file of the pass is empty: the code
  then drains a slot that was never filled. Two empty temp files are enough, and
  \<^verbatim>\<open>sortPresorted\<close> produces them from four empty inputs when at most three files are
  merged at once.
\<close>

theorem mergeFiles_drains_empty_heap:
  "map_sum id (\<lambda>w. ()) (mergeFiles 1 example_env 1 two_empty_temps) = Inl Undef_Lowest
   \<and> map_sum id (\<lambda>w. ()) (rwsort 10 example_env True [Input [], Input [], Input [], Input []])
       = Inl Undef_Lowest"
  by code_simp

section \<open>The passes of mergeFiles\<close>

text \<open>
  \<open>opens_succeed E w pre\<close>: the next \<open>length pre\<close> calls of \<^verbatim>\<open>skTempFileOpen\<close>, made on
  the indices \<open>pre\<close>, all return a reader.
\<close>

definition opens_succeed :: "'n env \<Rightarrow> 'n world \<Rightarrow> int list \<Rightarrow> bool" where
  "opens_succeed E w pre \<longleftrightarrow>
     (\<forall>i<length pre. open_reply E (open_calls w + i) = OPEN_OK \<and> files w (pre ! i) \<noteq> None)"

lemma opens_succeed_Cons:
  "opens_succeed E w (i # pre) \<longleftrightarrow>
     open_reply E (open_calls w) = OPEN_OK \<and> files w i \<noteq> None
     \<and> opens_succeed E (w\<lparr>open_calls := open_calls w + 1\<rparr>) pre"
proof -
  have "(\<forall>k<Suc (length pre). P k) \<longleftrightarrow> P 0 \<and> (\<forall>k<length pre. P (Suc k))" for P
    by (auto simp: less_Suc_eq_0_disj)
  then show ?thesis by (simp add: opens_succeed_def)
qed

text \<open>
  Claim C3, as the code has it. In the open loop of a merge pass, let the files \<open>pre\<close>
  open and the open of the next index \<open>j\<close> fail with the error \<open>r\<close>. When \<open>r\<close> is
  \<^verbatim>\<open>EMFILE\<close> or \<^verbatim>\<open>ENOMEM\<close> and \<open>open_count > 0\<close>, that is, at least one of the files
  opened so far in the pass held a record, the loop ends with the upper bound \<open>j - 1\<close>,
  the index opened last, and the pass goes on. Otherwise the sort exits: on the first
  open of the pass, on an open that only empty files precede, and on every other error.
\<close>

theorem open_temps_failure:
  assumes "opens_succeed E w pre"
    and "open_reply E (open_calls w + length pre) = r" and "r \<noteq> OPEN_OK"
  shows "((0 < open_count p \<or> (\<exists>i\<in>set pre. files w i \<noteq> Some []))
            \<and> (r = OPEN_EMFILE \<or> r = OPEN_ENOMEM) \<longrightarrow>
          (\<exists>w' p'. open_temps E (w, p) b (pre @ j # js) = Inr (j - 1, w', p') \<and> files w' = files w))
       \<and> (\<not> ((0 < open_count p \<or> (\<exists>i\<in>set pre. files w i \<noteq> Some []))
               \<and> (r = OPEN_EMFILE \<or> r = OPEN_ENOMEM)) \<longrightarrow>
          open_temps E (w, p) b (pre @ j # js) = Inl Exit_TempOpen)"
  using assms
proof (induction pre arbitrary: w p)
  case Nil
  then have "skTempFileOpen E w j = (Inl r, w\<lparr>open_calls := open_calls w + 1\<rparr>)"
    by (cases r) (simp_all add: skTempFileOpen_def Let_def)
  then show ?case by simp
next
  case (Cons i pre)
  let ?w1 = "w\<lparr>open_calls := open_calls w + 1\<rparr>"
  from Cons.prems(1) obtain c where
    ok: "open_reply E (open_calls w) = OPEN_OK" "files w i = Some c" and rest: "opens_succeed E ?w1 pre"
    by (auto simp: opens_succeed_Cons)
  then have op: "skTempFileOpen E w i = (Inr c, ?w1)"
    by (simp add: skTempFileOpen_def Let_def)
  from Cons.prems(2) have r1: "open_reply E (open_calls ?w1 + length pre) = r" by simp
  have f1: "files ?w1 = files w" by simp
  show ?case
  proof (cases c)
    case Nil
    with op have step: "open_temps E (w, p) b ((i # pre) @ j # js) = open_temps E (?w1, p) b (pre @ j # js)"
      by simp
    from Cons.IH [OF rest r1 Cons.prems(3), of p, unfolded f1] ok Nil show ?thesis
      unfolding step by auto
  next
    case (Cons x xs)
    let ?p1 = "p\<lparr>fps := fps p @ [xs], recs := recs p @ [x],
                  heap := skHeapInsert (heap p) (open_count p)\<rparr>"
    from Cons op have step: "open_temps E (w, p) b ((i # pre) @ j # js) = open_temps E (?w1, ?p1) b (pre @ j # js)"
      by simp
    have oc: "0 < open_count ?p1" by (simp add: open_count_def)
    from Cons.IH [OF rest r1 Cons.prems(3), of ?p1, unfolded f1] ok Cons oc show ?thesis
      unfolding step by auto
  qed
qed

text \<open>
  The claim as stated fails where the readers opened before the failure were all of empty
  files: those do not count in \<open>open_count\<close>. After \<^verbatim>\<open>sortPresorted\<close> has left an empty
  temp file 0 and a temp file 1 with one record, temp file 0 opens, the open of temp
  file 1 fails with \<^verbatim>\<open>EMFILE\<close>, and the sort exits.
\<close>

theorem open_temps_failure_counterexample:
  "map_sum id (\<lambda>w. ())
     (rwsort 10 (example_env\<lparr>open_reply := (\<lambda>k. if k = 1 then OPEN_EMFILE else OPEN_OK)\<rparr>) True
        [Input [], Input [], Input [], Input [5]])
   = Inl Exit_TempOpen"
  by code_simp

theorem open_temps_failure_witness:
  "\<exists>w' p'. open_temps (example_env\<lparr>open_reply := (\<lambda>k. if k = 2 then OPEN_EMFILE else OPEN_OK)\<rparr>)
       (initial_world\<lparr>files := [0 \<mapsto> [], 1 \<mapsto> [5], 2 \<mapsto> [7]], next_index := 3\<rparr>,
        \<lparr>fps = [], recs = [], heap = []\<rparr>) 2 ([0, 1] @ 2 # [])
     = Inr (2 - 1, w', p')"
proof -
  let ?E = "example_env\<lparr>open_reply := (\<lambda>k. if k = 2 then OPEN_EMFILE else OPEN_OK)\<rparr>"
  let ?w = "initial_world\<lparr>files := [0 \<mapsto> [], 1 \<mapsto> [5], 2 \<mapsto> [7 :: int]], next_index := 3\<rparr>"
  have a: "opens_succeed ?E ?w [0, 1]"
    by (simp add: opens_succeed_def example_env_def initial_world_def less_Suc_eq numeral_2_eq_2)
  have b: "open_reply ?E (open_calls ?w + length [0 :: int, 1]) = OPEN_EMFILE"
    by (simp add: example_env_def initial_world_def)
  have c: "\<exists>i\<in>set [0 :: int, 1]. files ?w i \<noteq> Some []"
    by simp
  from open_temps_failure [OF a b, of "\<lparr>fps = [], recs = [], heap = []\<rparr>" 2 2 "[]"] c
  show ?thesis by auto
qed

text \<open>
  What one pass of \<^verbatim>\<open>mergeFiles\<close> does to the world, when the index of the next temp
  file lies beyond the scheduled ones.
\<close>

lemma merge_pass_frame:
  assumes mp: "merge_pass E (tfi, a, w) = Inr (nomore, tfi', a', w')" and lt: "tfi < next_index w"
  shows "\<exists>L. L \<noteq> [] \<and> mset L = stored w a (a' - 1) \<and> a \<le> a' - 1 \<and> a' - 1 \<le> tfi
           \<and> (nomore \<longleftrightarrow> a' - 1 = tfi) \<and> tfi' = (if nomore then tfi else next_index w)
           \<and> (\<forall>j\<in>{a..a' - 1}. files w j \<noteq> None)
           \<and> out_rwios w' = out_rwios w @ (if nomore then filter (\<lambda>n. wstat E n = W_OK) L else [])
           \<and> files w' = (\<lambda>j. if j \<in> {a..a' - 1} then None
                               else if j = next_index w then Some (if nomore then [] else L)
                               else files w j)"
proof -
  let ?idx = "next_index w"
  let ?w1 = "w\<lparr>files := (files w)(?idx \<mapsto> []), next_index := ?idx + 1\<rparr>"
  let ?b = "if tfi - a < MAX_MERGE_FILES E - 1 then tfi else a + MAX_MERGE_FILES E - 1"
  from merge_pass_result [OF mp] obtain L k where
    r: "a \<le> a' - 1" "a' - 1 \<le> ?b" "nomore \<longleftrightarrow> a' - 1 = tfi" "tfi' = (if nomore then tfi else ?idx)"
       "\<forall>j\<in>{a..a' - 1}. files ?w1 j \<noteq> None"
       "mset L = (\<Sum>j\<leftarrow>[a..a' - 1]. mset (file_content ?w1 j))" "L \<noteq> []"
       "w' = remove_temps (put E (if nomore then None else Some ?idx) (?w1\<lparr>open_calls := k\<rparr>) L) [a..a' - 1]"
    by blast
  have btfi: "?b \<le> tfi" by auto
  with r(2) lt have range: "\<forall>j\<in>{a..a' - 1}. j \<noteq> ?idx" by auto
  have "(\<Sum>j\<leftarrow>[a..a' - 1]. mset (file_content ?w1 j)) = (\<Sum>j\<leftarrow>[a..a' - 1]. mset (file_content w j))"
    using range by (intro arg_cong [where f = sum_list] map_cong) (auto simp: file_content_def)
  with r(6) have m: "mset L = stored w a (a' - 1)" by (simp add: stored_def)
  from r(5) range have ex: "\<forall>j\<in>{a..a' - 1}. files w j \<noteq> None" by auto
  let ?wk = "?w1\<lparr>open_calls := k\<rparr>"
  have exi: "files ?wk ?idx \<noteq> None \<or> L \<noteq> []" by simp
  have out: "out_rwios w' = out_rwios w @ (if nomore then filter (\<lambda>n. wstat E n = W_OK) L else [])"
    using r(8) put_Some [OF exi, of E] by (simp add: remove_temps_eq put_None)
  have fl: "files w' = (\<lambda>j. if j \<in> {a..a' - 1} then None
                               else if j = ?idx then Some (if nomore then [] else L)
                               else files w j)"
    using r(8) put_Some [OF exi, of E]
    by (auto simp: remove_temps_eq put_None file_content_def fun_eq_iff)
  from r(1,3,4,7) r(2) btfi m ex out fl show ?thesis
    by (intro exI [of _ L]) auto
qed



text \<open>
  Claim C7. After a pass over \<open>a\<close> to \<open>a' - 1\<close> each of these temp files, which all
  existed, is removed, empty ones included; the next pass starts at \<open>a'\<close>, one after the
  upper bound; the scheduled files from \<open>a'\<close> on are untouched. When the pass is not the
  last, these remain scheduled together with the intermediate file, which holds the
  records of the removed files: each scheduled file is either consumed and deleted or
  awaits a later pass.
\<close>

theorem merge_pass_deletes_range:
  assumes "merge_pass E (tfi, a, w) = Inr (nomore, tfi', a', w')" and "tfi < next_index w"
  shows "a \<le> a' - 1 \<and> a' - 1 \<le> tfi
       \<and> (\<forall>j\<in>{a..a' - 1}. files w j \<noteq> None \<and> files w' j = None)
       \<and> (\<forall>j\<in>{a'..tfi}. files w' j = files w j)
       \<and> (\<not> nomore \<longrightarrow> a' \<le> tfi \<and> tfi' = next_index w
             \<and> mset (file_content w' tfi') = stored w a (a' - 1))"
proof -
  from merge_pass_frame [OF assms] obtain L where
    L: "mset L = stored w a (a' - 1)" "a \<le> a' - 1" "a' - 1 \<le> tfi" "nomore \<longleftrightarrow> a' - 1 = tfi"
       "tfi' = (if nomore then tfi else next_index w)"
       "\<forall>j\<in>{a..a' - 1}. files w j \<noteq> None"
       "files w' = (\<lambda>j. if j \<in> {a..a' - 1} then None
                               else if j = next_index w then Some (if nomore then [] else L)
                               else files w j)"
    by blast
  from L(3) assms(2) have ni: "next_index w \<notin> {a..a' - 1}" "next_index w \<notin> {a'..tfi}" by auto
  have "mset (file_content w' tfi') = stored w a (a' - 1)" if "\<not> nomore"
  proof -
    from that L(5) have "tfi' = next_index w" by simp
    moreover from L(7) ni(1) that have "files w' (next_index w) = Some L" by simp
    ultimately show ?thesis using L(1) by (simp add: file_content_def)
  qed
  with L ni show ?thesis by auto
qed

theorem merge_pass_deletes_range_witness:
  "\<exists>w'. merge_pass (example_env\<lparr>open_reply := (\<lambda>k. if k = 2 then OPEN_EMFILE else OPEN_OK)\<rparr>)
            (2, 0, three_runs) = Inr (False, 3, 2, w')
       \<and> files w' 0 = None \<and> files w' 1 = None \<and> files w' 2 = Some [2, 3]
       \<and> mset (file_content w' 3) = mset [1, 4]"
proof -
  let ?E = "example_env\<lparr>open_reply := (\<lambda>k. if k = 2 then OPEN_EMFILE else OPEN_OK)\<rparr>"
  let ?r = "merge_pass ?E (2, 0, three_runs)"
  have ev: "map_sum id (\<lambda>(nomore, tfi', a', w'). (nomore, tfi', a')) ?r = Inr (False, 3, 2)"
    by code_simp
  then obtain w' where w': "?r = Inr (False, 3, 2, w')"
    by (cases ?r) auto
  have lt: "(2 :: int) < next_index three_runs" by (simp add: three_runs_def initial_world_def)
  from merge_pass_deletes_range [OF w' lt]
  have "files w' 0 = None" "files w' 1 = None" "files w' 2 = files three_runs 2"
    "mset (file_content w' 3) = stored three_runs 0 1"
    by auto
  moreover have "stored three_runs 0 1 = mset [1, 4]"
    by (simp add: stored_def file_content_def three_runs_def initial_world_def upto_rec1)
  ultimately show ?thesis using w' by (simp add: three_runs_def initial_world_def)
qed

section \<open>Presorted inputs opened in a single pass\<close>




end
